theory Spec2Isabelle
  imports Complex_Main
begin

section \<open>Dense buffers and the two vector updates of axpy.cpp\<close>

text \<open>
  A \<^verbatim>\<open>double*\<close> is an address into one shared store; the store maps addresses
  (counted in elements) to values. Two pointers may therefore alias, as they may in
  the C++ source, where neither parameter is \<^verbatim>\<open>__restrict\<close>.

  The element type \<^verbatim>\<open>ValueT\<close> (\<^verbatim>\<open>float\<close> or \<^verbatim>\<open>double\<close>) is a type variable
  with the operations the code applies to it. Definitions ask only for \<open>0\<close>, \<open>+\<close>
  and \<open>*\<close>; they assume no law, so they read the same for rounded arithmetic.
  A theorem that needs associativity or distributivity says so in the sort of its
  type variable and then speaks of exact arithmetic only.

  \<^verbatim>\<open>int\<close> and \<^verbatim>\<open>OffsetT\<close> are read as mathematical integers. Signed overflow is
  undefined in C++, so there is no wrap-around to model; the theory is about runs in
  which every intermediate index stays below \<open>2^31\<close>.
\<close>

type_synonym 'a store = "int \<Rightarrow> 'a"

text \<open>
  \<^verbatim>\<open>for(int i=0; i<size; i++){ vector_y[i] += a * vector_x[i]; }\<close>
  The source name \<^verbatim>\<open>axpy_\<close> ends in an underscore, which Isabelle reserves; the
  constant is \<open>axpy_'\<close>.
\<close>

function axpy_loop :: "int \<Rightarrow> 'a::{plus,times} \<Rightarrow> int \<Rightarrow> int \<Rightarrow> int \<Rightarrow> 'a store \<Rightarrow> 'a store" where
  "axpy_loop size' a vector_x vector_y i h =
     (if i < size'
      then axpy_loop size' a vector_x vector_y (i + 1)
             (h(vector_y + i := h (vector_y + i) + a * h (vector_x + i)))
      else h)"
  by pat_completeness auto
termination
  by (relation "measure (\<lambda>(size', a, vector_x, vector_y, i, h). nat (size' - i))") auto

declare axpy_loop.simps [simp del]

definition axpy_' :: "int \<Rightarrow> 'a::{plus,times} \<Rightarrow> int \<Rightarrow> int \<Rightarrow> 'a store \<Rightarrow> 'a store" where
  "axpy_' size' a vector_x vector_y h = axpy_loop size' a vector_x vector_y 0 h"

text \<open>
  \<^verbatim>\<open>while( size-- ){ *(vector_y++) = a * *(vector_x++); }\<close>
  The loop stops when the counter is zero before the decrement. Started below zero
  it never meets zero inside the range of \<^verbatim>\<open>int\<close>: the run leaves both buffers and
  ends in an overflow, which is \<open>None\<close> here.
\<close>

function axpy_2 :: "int \<Rightarrow> 'a::{plus,times} \<Rightarrow> int \<Rightarrow> int \<Rightarrow> 'a store \<Rightarrow> 'a store option" where
  "axpy_2 size' a vector_x vector_y h =
     (if size' = 0 then Some h
      else if size' < 0 then None
      else axpy_2 (size' - 1) a (vector_x + 1) (vector_y + 1) (h(vector_y := a * h vector_x)))"
  by pat_completeness auto
termination
  by (relation "measure (\<lambda>(size', a, vector_x, vector_y, h). nat size')") auto

declare axpy_2.simps [simp del]

section \<open>Sparse matrix, coordinates and path searches of cpu_spmm_v2.cpp\<close>

text \<open>
  Modelled from the spec: the class \<^verbatim>\<open>CsrMatrix\<close> is declared in
  \<^verbatim>\<open>sparse_matrix.h\<close>, which is not among the sources. Its members are the ones
  the kernels read, under the names the source uses (\<^verbatim>\<open>values\<close> is \<open>values'\<close>:
  the plain word is reserved), with the arrays as the ordered sequences of section 3
  of the specification.
\<close>

record 'v CsrMatrix =
  num_rows :: int
  num_cols :: int
  num_nonzeros :: int
  row_offsets :: "int list"
  column_indices :: "int list"
  values' :: "'v list"

text \<open>
  Modelled from the spec: the invariants of a compressed-row matrix (section 3):
  \<open>row_offsets\<close> has \<open>num_rows + 1\<close> entries, starts at 0, does not decrease and
  ends at \<open>num_nonzeros\<close>; the two nonzero arrays have \<open>num_nonzeros\<close> entries;
  every column index is below \<open>num_cols\<close>.
\<close>

definition csr_invariants :: "'v CsrMatrix \<Rightarrow> bool" where
  "csr_invariants a \<longleftrightarrow>
     0 \<le> num_rows a \<and> 0 \<le> num_cols a \<and> 0 \<le> num_nonzeros a \<and>
     length (row_offsets a) = nat (num_rows a) + 1 \<and>
     row_offsets a ! 0 = 0 \<and> sorted (row_offsets a) \<and>
     row_offsets a ! nat (num_rows a) = num_nonzeros a \<and>
     length (column_indices a) = nat (num_nonzeros a) \<and>
     length (values' a) = nat (num_nonzeros a) \<and>
     list_all (\<lambda>c. 0 \<le> c \<and> c < num_cols a) (column_indices a)"

text \<open>
  A read-only array handed to a kernel as a pointer is its read function on element
  offsets. \<open>ptr xs\<close> points at the first element of \<open>xs\<close>;
  \<open>ptr_add p k\<close> is \<^verbatim>\<open>p + k\<close>. The callers pass \<^verbatim>\<open>a.row_offsets + 1\<close> as
  \<^verbatim>\<open>row_end_offsets\<close>.
\<close>

definition ptr :: "'b list \<Rightarrow> int \<Rightarrow> 'b" where
  "ptr xs i = xs ! nat i"

definition ptr_add :: "(int \<Rightarrow> 'b) \<Rightarrow> int \<Rightarrow> int \<Rightarrow> 'b" where
  "ptr_add p k i = p (k + i)"

datatype int2 = Int2 (coord_x: int) (coord_y: int)

text \<open>\<^verbatim>\<open>CountingInputIterator::operator[]\<close>: \<^verbatim>\<open>return val + n;\<close>\<close>

definition CountingInputIterator :: "int \<Rightarrow> int \<Rightarrow> int" where
  "CountingInputIterator val n = val + n"

text \<open>
  The loop of \<^verbatim>\<open>MergePathSearch\<close>. \<^verbatim>\<open>(x_min + x_max) >> 1\<close> is the arithmetic
  shift, which is \<open>div 2\<close> rounding down.
\<close>

function MergePathSearch_loop ::
  "int \<Rightarrow> (int \<Rightarrow> int) \<Rightarrow> (int \<Rightarrow> int) \<Rightarrow> int \<Rightarrow> int \<Rightarrow> int" where
  "MergePathSearch_loop diagonal a b x_min x_max =
     (if x_min < x_max
      then (if a ((x_min + x_max) div 2) \<le> b (diagonal - (x_min + x_max) div 2 - 1)
            then MergePathSearch_loop diagonal a b ((x_min + x_max) div 2 + 1) x_max
            else MergePathSearch_loop diagonal a b x_min ((x_min + x_max) div 2))
      else x_min)"
  by pat_completeness auto
termination
  by (relation "measure (\<lambda>(diagonal, a, b, x_min, x_max). nat (x_max - x_min))") auto

declare MergePathSearch_loop.simps [simp del]

definition MergePathSearch ::
  "int \<Rightarrow> (int \<Rightarrow> int) \<Rightarrow> (int \<Rightarrow> int) \<Rightarrow> int \<Rightarrow> int \<Rightarrow> int2" where
  "MergePathSearch diagonal a b a_len b_len =
     (let x_min = MergePathSearch_loop diagonal a b (max (diagonal - b_len) 0) (min diagonal a_len)
      in Int2 (min x_min a_len) (diagonal - x_min))"

text \<open>
  \<^verbatim>\<open>RowPathSearch\<close> reads \<^verbatim>\<open>path_coordinate.y\<close> and writes \<^verbatim>\<open>path_coordinate.x\<close>.
\<close>

function RowPathSearch_loop ::
  "(int \<Rightarrow> int) \<Rightarrow> (int \<Rightarrow> int) \<Rightarrow> int2 \<Rightarrow> int \<Rightarrow> int \<Rightarrow> int" where
  "RowPathSearch_loop a b path_coordinate x_min x_max =
     (if x_min < x_max
      then (if a ((x_min + x_max) div 2) \<le> b (coord_y path_coordinate - 1)
            then RowPathSearch_loop a b path_coordinate ((x_min + x_max) div 2 + 1) x_max
            else RowPathSearch_loop a b path_coordinate x_min ((x_min + x_max) div 2))
      else x_min)"
  by pat_completeness auto
termination
  by (relation "measure (\<lambda>(a, b, path_coordinate, x_min, x_max). nat (x_max - x_min))") auto

declare RowPathSearch_loop.simps [simp del]

definition RowPathSearch :: "(int \<Rightarrow> int) \<Rightarrow> (int \<Rightarrow> int) \<Rightarrow> int \<Rightarrow> int2 \<Rightarrow> int2" where
  "RowPathSearch a b a_len path_coordinate =
     Int2 (min (RowPathSearch_loop a b path_coordinate 0 a_len) a_len) (coord_y path_coordinate)"

text \<open>
  \<^verbatim>\<open>/\<close> on \<^verbatim>\<open>int\<close> truncates towards zero.
\<close>

definition c_div :: "int \<Rightarrow> int \<Rightarrow> int" where
  "c_div m n = sgn m * sgn n * (\<bar>m\<bar> div \<bar>n\<bar>)"

subsection \<open>The partition of the merge-path kernel\<close>

definition merge_items_per_thread :: "int \<Rightarrow> 'v CsrMatrix \<Rightarrow> int" where
  "merge_items_per_thread num_threads a =
     c_div (num_rows a + num_nonzeros a + num_threads - 1) num_threads"

definition merge_start_diagonal :: "int \<Rightarrow> 'v CsrMatrix \<Rightarrow> int \<Rightarrow> int" where
  "merge_start_diagonal num_threads a tid =
     min (merge_items_per_thread num_threads a * tid) (num_rows a + num_nonzeros a)"

definition merge_end_diagonal :: "int \<Rightarrow> 'v CsrMatrix \<Rightarrow> int \<Rightarrow> int" where
  "merge_end_diagonal num_threads a tid =
     min (merge_start_diagonal num_threads a tid + merge_items_per_thread num_threads a)
         (num_rows a + num_nonzeros a)"

definition merge_thread_coord :: "int \<Rightarrow> 'v CsrMatrix \<Rightarrow> (int \<Rightarrow> int) \<Rightarrow> int \<Rightarrow> int2" where
  "merge_thread_coord num_threads a row_end_offsets tid =
     MergePathSearch (merge_start_diagonal num_threads a tid) row_end_offsets
       (CountingInputIterator 0) (num_rows a) (num_nonzeros a)"

definition merge_thread_coord_end :: "int \<Rightarrow> 'v CsrMatrix \<Rightarrow> (int \<Rightarrow> int) \<Rightarrow> int \<Rightarrow> int2" where
  "merge_thread_coord_end num_threads a row_end_offsets tid =
     MergePathSearch (merge_end_diagonal num_threads a tid) row_end_offsets
       (CountingInputIterator 0) (num_rows a) (num_nonzeros a)"

subsection \<open>The partition of the nonzero-split kernel\<close>

text \<open>
  \<^verbatim>\<open>thread_coord.x\<close> holds no value yet when \<^verbatim>\<open>RowPathSearch\<close> is called; the
  search overwrites it without reading it, and the model passes 0.
\<close>

definition nzsplit_items_per_thread :: "int \<Rightarrow> 'v CsrMatrix \<Rightarrow> int" where
  "nzsplit_items_per_thread num_threads a = c_div (num_nonzeros a + num_threads - 1) num_threads"

definition nzsplit_start_y :: "int \<Rightarrow> 'v CsrMatrix \<Rightarrow> int \<Rightarrow> int" where
  "nzsplit_start_y num_threads a tid =
     min (nzsplit_items_per_thread num_threads a * tid) (num_nonzeros a)"

definition nzsplit_end_y :: "int \<Rightarrow> 'v CsrMatrix \<Rightarrow> int \<Rightarrow> int" where
  "nzsplit_end_y num_threads a tid =
     min (nzsplit_start_y num_threads a tid + nzsplit_items_per_thread num_threads a)
         (num_nonzeros a)"

definition nzsplit_thread_coord :: "int \<Rightarrow> 'v CsrMatrix \<Rightarrow> (int \<Rightarrow> int) \<Rightarrow> int \<Rightarrow> int2" where
  "nzsplit_thread_coord num_threads a row_end_offsets tid =
     RowPathSearch row_end_offsets (CountingInputIterator 0) (num_rows a)
       (Int2 0 (nzsplit_start_y num_threads a tid))"

definition nzsplit_thread_coord_end :: "int \<Rightarrow> 'v CsrMatrix \<Rightarrow> (int \<Rightarrow> int) \<Rightarrow> int \<Rightarrow> int2" where
  "nzsplit_thread_coord_end num_threads a row_end_offsets tid =
     RowPathSearch row_end_offsets (CountingInputIterator 0) (num_rows a)
       (Int2 0 (nzsplit_end_y num_threads a tid))"

subsection \<open>Concrete matrices\<close>

text \<open>The 1 by 1 matrix with the single entry 2.\<close>

definition csr_1x1 :: "real CsrMatrix" where
  "csr_1x1 = \<lparr>num_rows = 1, num_cols = 1, num_nonzeros = 1, row_offsets = [0, 1],
               column_indices = [0], values' = [2]\<rparr>"

text \<open>One row with four nonzeros.\<close>

definition csr_1x4 :: "real CsrMatrix" where
  "csr_1x4 = \<lparr>num_rows = 1, num_cols = 4, num_nonzeros = 4, row_offsets = [0, 4],
               column_indices = [0, 1, 2, 3], values' = [1, 2, 3, 4]\<rparr>"

text \<open>The 2 by 2 identity, with one nonzero in each row.\<close>

definition csr_2x2 :: "real CsrMatrix" where
  "csr_2x2 = \<lparr>num_rows = 2, num_cols = 2, num_nonzeros = 2, row_offsets = [0, 1, 2],
               column_indices = [0, 1], values' = [1, 1]\<rparr>"

text \<open>The callers pass \<^verbatim>\<open>a.row_offsets + 1\<close> for \<^verbatim>\<open>row_end_offsets\<close>.\<close>

definition row_end_offsets_of :: "'v CsrMatrix \<Rightarrow> int \<Rightarrow> int" where
  "row_end_offsets_of a = ptr_add (ptr (row_offsets a)) 1"

section \<open>The kernels of cpu_spmm_v2.cpp\<close>

text \<open>
  The output buffer \<^verbatim>\<open>vector_y_out\<close> is a store indexed by element offset; the
  read-only arrays (\<^verbatim>\<open>row_end_offsets\<close>, \<^verbatim>\<open>column_indices\<close>, \<^verbatim>\<open>values\<close>,
  \<^verbatim>\<open>vector_x_row_major\<close>) are read functions. The kernel parameters
  \<^verbatim>\<open>column_indices\<close> and \<^verbatim>\<open>values\<close> hide the matrix members of the same names;
  they are \<open>col_ind\<close> and \<open>vals\<close> here.

  What the model does not cover: a read or write outside a buffer (the stores are
  total), and the interleaving of threads. The iterations of an
  \<^verbatim>\<open>omp parallel for\<close> run here one after the other in the order of the loop
  variable. Which OS thread of the team runs which iteration is a parameter of the
  two load-balanced kernels, \<open>os_thread\<close>: it decides where the loop-local array
  \<^verbatim>\<open>running_total\<close> of an iteration lives.
\<close>

text \<open>A buffer that holds the same value everywhere.\<close>

definition filled :: "'a \<Rightarrow> int \<Rightarrow> 'a" where
  "filled v i = v"

datatype error = CarryOutOfBounds | CarryUninitialised | PrivateUninitialised | WildPointer

subsection \<open>The work of one thread\<close>

text \<open>
  \<^verbatim>\<open>val = values[y]; ind = column_indices[y]*num_vectors; tmp = vector_x_row_major+ind;\<close>
  \<^verbatim>\<open>for (int i=0; i<num_vectors; i++){ running_total[i] += val * tmp[i]; }\<close>
\<close>

definition accumulate ::
  "(int \<Rightarrow> int) \<Rightarrow> (int \<Rightarrow> 'a::{zero,plus,times}) \<Rightarrow> (int \<Rightarrow> 'a) \<Rightarrow> int \<Rightarrow> int \<Rightarrow> 'a list \<Rightarrow> 'a list" where
  "accumulate col_ind vals vector_x_row_major num_vectors y running_total =
     fold (\<lambda>i rt. rt[i := rt ! i + vals y * vector_x_row_major (col_ind y * num_vectors + int i)])
          [0..<nat num_vectors] running_total"

text \<open>
  \<^verbatim>\<open>for (; y < bound; ++y) { ... }\<close> with the body above. The kernels run it up to
  \<^verbatim>\<open>row_end_offsets[thread_coord.x]\<close> inside the loop over whole rows and up to
  \<^verbatim>\<open>thread_coord_end.y\<close> for the last, partial row; the row-parallel kernel runs it
  from \<^verbatim>\<open>row_offsets[row]\<close> to \<^verbatim>\<open>row_offsets[row + 1]\<close>.
\<close>

function consume_nonzeros ::
  "(int \<Rightarrow> int) \<Rightarrow> (int \<Rightarrow> 'a::{zero,plus,times}) \<Rightarrow> (int \<Rightarrow> 'a) \<Rightarrow> int \<Rightarrow> int \<Rightarrow> int \<Rightarrow> 'a list
     \<Rightarrow> int \<times> 'a list" where
  "consume_nonzeros col_ind vals vector_x_row_major num_vectors bound y running_total =
     (if y < bound
      then consume_nonzeros col_ind vals vector_x_row_major num_vectors bound (y + 1)
             (accumulate col_ind vals vector_x_row_major num_vectors y running_total)
      else (y, running_total))"
  by pat_completeness auto
termination
  by (relation "measure (\<lambda>(col_ind, vals, vector_x_row_major, num_vectors, bound, y, running_total).
        nat (bound - y))") auto

declare consume_nonzeros.simps [simp del]

text \<open>
  \<^verbatim>\<open>ind = thread_coord.x*num_vectors; tmp = vector_y_out+ind;\<close>
  \<^verbatim>\<open>for (int i=0; i<num_vectors; i++){ tmp[i] = running_total[i]; running_total[i] = 0.0; }\<close>
\<close>

definition write_and_reset ::
  "int \<Rightarrow> int \<Rightarrow> 'a::{zero,plus,times} list \<Rightarrow> 'a store \<Rightarrow> 'a list \<times> 'a store" where
  "write_and_reset ind num_vectors running_total vector_y_out =
     fold (\<lambda>i (rt, Y). (rt[i := 0], Y(ind + int i := rt ! i)))
          [0..<nat num_vectors] (running_total, vector_y_out)"

text \<open>
  The loop over whole rows,
  \<^verbatim>\<open>for (; thread_coord.x < thread_coord_end.x; ++thread_coord.x)\<close>. Its state is
  \<^verbatim>\<open>thread_coord.x\<close>, \<^verbatim>\<open>thread_coord.y\<close>, \<^verbatim>\<open>running_total\<close> and the output.
\<close>

function consume_rows ::
  "(int \<Rightarrow> int) \<Rightarrow> (int \<Rightarrow> int) \<Rightarrow> (int \<Rightarrow> 'a::{zero,plus,times}) \<Rightarrow> (int \<Rightarrow> 'a) \<Rightarrow> int \<Rightarrow> int \<Rightarrow>
     int \<Rightarrow> int \<Rightarrow> 'a list \<Rightarrow> 'a store \<Rightarrow> int \<times> int \<times> 'a list \<times> 'a store" where
  "consume_rows row_end_offsets col_ind vals vector_x_row_major num_vectors x_end
       x y running_total vector_y_out =
     (if x < x_end
      then (case consume_nonzeros col_ind vals vector_x_row_major num_vectors
                   (row_end_offsets x) y running_total of
              (y', rt') \<Rightarrow>
                (case write_and_reset (x * num_vectors) num_vectors rt' vector_y_out of
                   (rt'', Y') \<Rightarrow>
                     consume_rows row_end_offsets col_ind vals vector_x_row_major num_vectors
                       x_end (x + 1) y' rt'' Y'))
      else (x, y, running_total, vector_y_out))"
  by pat_completeness auto
termination
  by (relation "measure (\<lambda>(row_end_offsets, col_ind, vals, vector_x_row_major, num_vectors, x_end,
        x, y, running_total, vector_y_out). nat (x_end - x))") auto

declare consume_rows.simps [simp del]

text \<open>
  The body of the parallel loop after the two coordinates are known; the text is
  the same in \<^verbatim>\<open>OmpMergeCsrmm\<close> and \<^verbatim>\<open>OmpNonzeroSplitCsrmm\<close>. It returns the
  output, \<^verbatim>\<open>thread_coord_end.x\<close>, and the contents of \<^verbatim>\<open>running_total\<close> when the
  body ends. \<^verbatim>\<open>ValueT running_total[num_vectors] = {0.0};\<close> starts every iteration
  from zeros.
\<close>

definition thread_work ::
  "(int \<Rightarrow> int) \<Rightarrow> (int \<Rightarrow> int) \<Rightarrow> (int \<Rightarrow> 'a::{zero,plus,times}) \<Rightarrow> (int \<Rightarrow> 'a) \<Rightarrow> int \<Rightarrow>
     int2 \<Rightarrow> int2 \<Rightarrow> 'a store \<Rightarrow> 'a store \<times> int \<times> 'a list" where
  "thread_work row_end_offsets col_ind vals vector_x_row_major num_vectors
       thread_coord thread_coord_end vector_y_out =
     (case consume_rows row_end_offsets col_ind vals vector_x_row_major num_vectors
             (coord_x thread_coord_end) (coord_x thread_coord) (coord_y thread_coord)
             (replicate (nat num_vectors) 0) vector_y_out of
        (x, y, rt, Y') \<Rightarrow>
          (case consume_nonzeros col_ind vals vector_x_row_major num_vectors
                  (coord_y thread_coord_end) y rt of
             (y', rt') \<Rightarrow> (Y', coord_x thread_coord_end, rt')))"

subsection \<open>Carry-out arrays and the fix-up\<close>

text \<open>
  \<^verbatim>\<open>OffsetT row_carry_out[256]; ValueT* value_carry_out[256];\<close>
  An array of 256 slots that starts without values: a partial map, with every
  access checked against the bound.
\<close>

type_synonym 'b carry_array = "int \<rightharpoonup> 'b"

definition carry_write :: "'b carry_array \<Rightarrow> int \<Rightarrow> 'b \<Rightarrow> error + 'b carry_array" where
  "carry_write arr tid v =
     (if 0 \<le> tid \<and> tid < 256 then Inr (arr(tid \<mapsto> v)) else Inl CarryOutOfBounds)"

definition carry_read :: "'b carry_array \<Rightarrow> int \<Rightarrow> error + 'b" where
  "carry_read arr tid =
     (if 0 \<le> tid \<and> tid < 256
      then (case arr tid of Some v \<Rightarrow> Inr v | None \<Rightarrow> Inl CarryUninitialised)
      else Inl CarryOutOfBounds)"

text \<open>
  \<^verbatim>\<open>value_carry_out[tid] = running_total;\<close> stores the address of the array, not
  its contents, and the fix-up reads through that address after the loop. The array
  is local to the loop body: an OS thread that runs several iterations has it at
  the same place of its stack in each of them. The arrays are therefore a memory
  of their own, \<open>frames\<close>, with one array per OS thread, addressed by the number
  of the OS thread; \<open>os_thread tid\<close> is the OS thread that runs iteration \<open>tid\<close>.
  The lifetime of the array ends with the iteration; the memory keeps what was
  last written to it.
\<close>

type_synonym 'a frames = "int \<rightharpoonup> 'a list"

text \<open>
  \<^verbatim>\<open>for (int tid = 0; tid < num_threads; tid++)\<close>: the parallel loop, given the
  function that computes the two coordinates of a thread.
\<close>

function run_threads ::
  "(int \<Rightarrow> int) \<Rightarrow> (int \<Rightarrow> int2 \<times> int2) \<Rightarrow> (int \<Rightarrow> int) \<Rightarrow> (int \<Rightarrow> int) \<Rightarrow>
     (int \<Rightarrow> 'a::{zero,plus,times}) \<Rightarrow> (int \<Rightarrow> 'a) \<Rightarrow> int \<Rightarrow> int \<Rightarrow> int \<Rightarrow> 'a store \<Rightarrow>
     int carry_array \<Rightarrow> int carry_array \<Rightarrow> 'a frames \<Rightarrow>
     error + ('a store \<times> int carry_array \<times> int carry_array \<times> 'a frames)" where
  "run_threads os_thread coords row_end_offsets col_ind vals vector_x_row_major num_vectors
       num_threads tid vector_y_out row_carry_out value_carry_out frames =
     (if tid < num_threads
      then (case thread_work row_end_offsets col_ind vals vector_x_row_major num_vectors
                   (fst (coords tid)) (snd (coords tid)) vector_y_out of
              (Y', row, running_total) \<Rightarrow>
                (case carry_write row_carry_out tid row of
                   Inl e \<Rightarrow> Inl e
                 | Inr row_carry_out' \<Rightarrow>
                     (case carry_write value_carry_out tid (os_thread tid) of
                        Inl e \<Rightarrow> Inl e
                      | Inr value_carry_out' \<Rightarrow>
                          run_threads os_thread coords row_end_offsets col_ind vals
                            vector_x_row_major num_vectors num_threads (tid + 1) Y'
                            row_carry_out' value_carry_out'
                            (frames(os_thread tid \<mapsto> running_total)))))
      else Inr (vector_y_out, row_carry_out, value_carry_out, frames))"
  by pat_completeness auto
termination
  by (relation "measure (\<lambda>(os_thread, coords, row_end_offsets, col_ind, vals, vector_x_row_major,
        num_vectors, num_threads, tid, vector_y_out, row_carry_out, value_carry_out, frames).
        nat (num_threads - tid))")
     auto

declare run_threads.simps [simp del]

text \<open>
  \<^verbatim>\<open>for (int i=0; i<num_vectors; i++){ tmp[i] += value_carry_out[tid][i]; }\<close>
  with \<^verbatim>\<open>tmp = vector_y_out + ind\<close>.
\<close>

definition add_carry :: "int \<Rightarrow> int \<Rightarrow> 'a::{zero,plus,times} list \<Rightarrow> 'a store \<Rightarrow> 'a store" where
  "add_carry ind num_vectors carry vector_y_out =
     fold (\<lambda>i Y. Y(ind + int i := Y (ind + int i) + carry ! i)) [0..<nat num_vectors] vector_y_out"

text \<open>
  \<^verbatim>\<open>for (int tid = 0; tid < num_threads - 1; ++tid)\<close>
  \<^verbatim>\<open>if (row_carry_out[tid] < a.num_rows){ ... }\<close>: the fix-up, the same text in both
  kernels. \<^verbatim>\<open>value_carry_out[tid][i]\<close> reads the array at the recorded address as it
  is now; an address at which no iteration had its array is \<open>WildPointer\<close>.
\<close>

function carry_out_fixup ::
  "int \<Rightarrow> int \<Rightarrow> int \<Rightarrow> int carry_array \<Rightarrow> int carry_array \<Rightarrow> 'a::{zero,plus,times} frames \<Rightarrow>
     int \<Rightarrow> 'a store \<Rightarrow> error + 'a store" where
  "carry_out_fixup num_threads a_num_rows num_vectors row_carry_out value_carry_out frames tid
       vector_y_out =
     (if tid < num_threads - 1
      then (case carry_read row_carry_out tid of
              Inl e \<Rightarrow> Inl e
            | Inr row \<Rightarrow>
                if row < a_num_rows
                then (case carry_read value_carry_out tid of
                        Inl e \<Rightarrow> Inl e
                      | Inr address \<Rightarrow>
                          (case frames address of
                             None \<Rightarrow> Inl WildPointer
                           | Some carry \<Rightarrow>
                               carry_out_fixup num_threads a_num_rows num_vectors row_carry_out
                                 value_carry_out frames (tid + 1)
                                 (add_carry (row * num_vectors) num_vectors carry vector_y_out)))
                else carry_out_fixup num_threads a_num_rows num_vectors row_carry_out
                       value_carry_out frames (tid + 1) vector_y_out)
      else Inr vector_y_out)"
  by pat_completeness auto
termination
  by (relation "measure (\<lambda>(num_threads, a_num_rows, num_vectors, row_carry_out, value_carry_out,
        frames, tid, vector_y_out). nat (num_threads - 1 - tid))") auto

declare carry_out_fixup.simps [simp del]

subsection \<open>The two load-balanced kernels\<close>

text \<open>
  The two kernels differ in the coordinates of a thread only (lines 539 to 549 and
  720 to 730); the parallel loop around \<open>thread_work\<close> and the fix-up are the same
  text and are modelled once, in \<open>load_balanced_csrmm\<close>.
\<close>

definition merge_coords :: "int \<Rightarrow> 'v CsrMatrix \<Rightarrow> (int \<Rightarrow> int) \<Rightarrow> int \<Rightarrow> int2 \<times> int2" where
  "merge_coords num_threads a row_end_offsets tid =
     (merge_thread_coord num_threads a row_end_offsets tid,
      merge_thread_coord_end num_threads a row_end_offsets tid)"

definition nzsplit_coords :: "int \<Rightarrow> 'v CsrMatrix \<Rightarrow> (int \<Rightarrow> int) \<Rightarrow> int \<Rightarrow> int2 \<times> int2" where
  "nzsplit_coords num_threads a row_end_offsets tid =
     (nzsplit_thread_coord num_threads a row_end_offsets tid,
      nzsplit_thread_coord_end num_threads a row_end_offsets tid)"

text \<open>
  The running total a thread holds when its body ends. It does not depend on the
  output buffer (lemma \<open>thread_work_carry\<close>), so it is read off a run on an empty
  one.
\<close>

definition carry_total ::
  "(int \<Rightarrow> int) \<Rightarrow> (int \<Rightarrow> int) \<Rightarrow> (int \<Rightarrow> 'a::{zero,plus,times}) \<Rightarrow> (int \<Rightarrow> 'a) \<Rightarrow> int \<Rightarrow>
     (int \<Rightarrow> int2 \<times> int2) \<Rightarrow> int \<Rightarrow> 'a list" where
  "carry_total row_end_offsets col_ind vals vector_x_row_major num_vectors coords tid =
     snd (snd (thread_work row_end_offsets col_ind vals vector_x_row_major num_vectors
                 (fst (coords tid)) (snd (coords tid)) (filled 0)))"

definition load_balanced_csrmm ::
  "(int \<Rightarrow> int) \<Rightarrow> (int \<Rightarrow> int2 \<times> int2) \<Rightarrow> int \<Rightarrow> int \<Rightarrow> (int \<Rightarrow> int) \<Rightarrow> (int \<Rightarrow> int) \<Rightarrow>
     (int \<Rightarrow> 'a::{zero,plus,times}) \<Rightarrow> 'a store \<Rightarrow> int \<Rightarrow> (int \<Rightarrow> 'a) \<Rightarrow> error + 'a store" where
  "load_balanced_csrmm os_thread coords num_threads a_num_rows row_end_offsets col_ind vals
       vector_y_out num_vectors vector_x_row_major =
     (case run_threads os_thread coords row_end_offsets col_ind vals vector_x_row_major num_vectors
             num_threads 0 vector_y_out Map.empty Map.empty Map.empty of
        Inl e \<Rightarrow> Inl e
      | Inr (Y, row_carry_out, value_carry_out, frames) \<Rightarrow>
          carry_out_fixup num_threads a_num_rows num_vectors row_carry_out value_carry_out frames
            0 Y)"

definition OmpMergeCsrmm ::
  "(int \<Rightarrow> int) \<Rightarrow> int \<Rightarrow> 'v CsrMatrix \<Rightarrow> (int \<Rightarrow> int) \<Rightarrow> (int \<Rightarrow> int) \<Rightarrow>
     (int \<Rightarrow> 'a::{zero,plus,times}) \<Rightarrow> (int \<Rightarrow> 'a) \<Rightarrow> 'a store \<Rightarrow> int \<Rightarrow> (int \<Rightarrow> 'a) \<Rightarrow>
     error + 'a store" where
  "OmpMergeCsrmm os_thread num_threads a row_end_offsets col_ind vals vector_x vector_y_out
       num_vectors vector_x_row_major =
     load_balanced_csrmm os_thread (merge_coords num_threads a row_end_offsets)
       num_threads (num_rows a) row_end_offsets col_ind vals vector_y_out num_vectors
       vector_x_row_major"

definition OmpNonzeroSplitCsrmm ::
  "(int \<Rightarrow> int) \<Rightarrow> int \<Rightarrow> 'v CsrMatrix \<Rightarrow> (int \<Rightarrow> int) \<Rightarrow> (int \<Rightarrow> int) \<Rightarrow>
     (int \<Rightarrow> 'a::{zero,plus,times}) \<Rightarrow> (int \<Rightarrow> 'a) \<Rightarrow> 'a store \<Rightarrow> int \<Rightarrow> (int \<Rightarrow> 'a) \<Rightarrow>
     error + 'a store" where
  "OmpNonzeroSplitCsrmm os_thread num_threads a row_end_offsets col_ind vals vector_x vector_y_out
       num_vectors vector_x_row_major =
     load_balanced_csrmm os_thread (nzsplit_coords num_threads a row_end_offsets)
       num_threads (num_rows a) row_end_offsets col_ind vals vector_y_out num_vectors
       vector_x_row_major"

text \<open>
  Two ways a team can run the iterations. The clause \<^verbatim>\<open>num_threads(num_threads)\<close>
  is a request: with a team of that size \<^verbatim>\<open>schedule(static)\<close> gives every iteration
  an OS thread of its own; a smaller team has to run several iterations on one
  thread. In a team of two that runs three iterations, the first thread runs
  iterations 0 and 1 and the second runs iteration 2.
\<close>

definition one_thread_each :: "int \<Rightarrow> int" where
  "one_thread_each tid = tid"

definition team_of_two :: "int \<Rightarrow> int" where
  "team_of_two tid = (if tid < 2 then 0 else 1)"

subsection \<open>The reference kernel\<close>

text \<open>
  \<^verbatim>\<open>partial += alpha * a.values[offset] * vector_x[a.column_indices[offset]];\<close>
  for \<^verbatim>\<open>offset\<close> up to \<^verbatim>\<open>a.row_offsets[row + 1]\<close>.
\<close>

function SpmvGold_row ::
  "'a::{zero,plus,times} CsrMatrix \<Rightarrow> (int \<Rightarrow> 'a) \<Rightarrow> 'a \<Rightarrow> int \<Rightarrow> int \<Rightarrow> 'a \<Rightarrow> 'a" where
  "SpmvGold_row a vector_x alpha row offset partial =
     (if offset < ptr (row_offsets a) (row + 1)
      then SpmvGold_row a vector_x alpha row (offset + 1)
             (partial + alpha * ptr (values' a) offset * vector_x (ptr (column_indices a) offset))
      else partial)"
  by pat_completeness auto
termination
  by (relation "measure (\<lambda>(a, vector_x, alpha, row, offset, partial).
        nat (ptr (row_offsets a) (row + 1) - offset))") auto

declare SpmvGold_row.simps [simp del]

function SpmvGold_rows ::
  "'a::{zero,plus,times} CsrMatrix \<Rightarrow> (int \<Rightarrow> 'a) \<Rightarrow> (int \<Rightarrow> 'a) \<Rightarrow> 'a \<Rightarrow> 'a \<Rightarrow> int \<Rightarrow> 'a store \<Rightarrow> 'a store" where
  "SpmvGold_rows a vector_x vector_y_in alpha beta row vector_y_out =
     (if row < num_rows a
      then SpmvGold_rows a vector_x vector_y_in alpha beta (row + 1)
             (vector_y_out(row := SpmvGold_row a vector_x alpha row (ptr (row_offsets a) row)
                                    (beta * vector_y_in row)))
      else vector_y_out)"
  by pat_completeness auto
termination
  by (relation "measure (\<lambda>(a, vector_x, vector_y_in, alpha, beta, row, vector_y_out).
        nat (num_rows a - row))") auto

declare SpmvGold_rows.simps [simp del]

definition SpmvGold ::
  "'a::{zero,plus,times} CsrMatrix \<Rightarrow> (int \<Rightarrow> 'a) \<Rightarrow> (int \<Rightarrow> 'a) \<Rightarrow> 'a store \<Rightarrow> 'a \<Rightarrow> 'a \<Rightarrow> 'a store" where
  "SpmvGold a vector_x vector_y_in vector_y_out alpha beta =
     SpmvGold_rows a vector_x vector_y_in alpha beta 0 vector_y_out"

subsection \<open>The row-parallel kernel\<close>

text \<open>The two layout flags, global variables of the program.\<close>

record globals =
  g_input_row_major :: bool
  g_output_row_major :: bool

text \<open>
  Where the kernel stores entry \<open>i\<close> of the result of \<open>row\<close>:
  \<^verbatim>\<open>vector_y_out[row*num_vectors + i]\<close> if \<^verbatim>\<open>g_output_row_major\<close>, else
  \<^verbatim>\<open>vector_y_out[row + i * num_rows]\<close>.
\<close>

definition y_index :: "globals \<Rightarrow> int \<Rightarrow> int \<Rightarrow> int \<Rightarrow> int \<Rightarrow> int" where
  "y_index g a_num_rows num_vectors row i =
     (if g_output_row_major g then row * num_vectors + i else row + i * a_num_rows)"

definition write_partial ::
  "globals \<Rightarrow> int \<Rightarrow> int \<Rightarrow> int \<Rightarrow> 'a list \<Rightarrow> 'a store \<Rightarrow> 'a store" where
  "write_partial g a_num_rows num_vectors row partial vector_y_out =
     fold (\<lambda>i Y. Y(y_index g a_num_rows num_vectors row (int i) := partial ! i))
          [0..<nat num_vectors] vector_y_out"

function spmmt_rows ::
  "globals \<Rightarrow> 'a::{zero,plus,times} CsrMatrix \<Rightarrow> (int \<Rightarrow> 'a) \<Rightarrow> int \<Rightarrow> int \<Rightarrow> 'a store \<Rightarrow> 'a store" where
  "spmmt_rows g a vector_x_row_major num_vectors row vector_y_out =
     (if row < num_rows a
      then spmmt_rows g a vector_x_row_major num_vectors (row + 1)
             (write_partial g (num_rows a) num_vectors row
                (snd (consume_nonzeros (ptr (column_indices a)) (ptr (values' a))
                        vector_x_row_major num_vectors (ptr (row_offsets a) (row + 1))
                        (ptr (row_offsets a) row) (replicate (nat num_vectors) 0)))
                vector_y_out)
      else vector_y_out)"
  by pat_completeness auto
termination
  by (relation "measure (\<lambda>(g, a, vector_x_row_major, num_vectors, row, vector_y_out).
        nat (num_rows a - row))") auto

declare spmmt_rows.simps [simp del]

text \<open>
  With \<^verbatim>\<open>g_input_row_major\<close> false the kernel first copies \<^verbatim>\<open>vector_x\<close> into
  \<^verbatim>\<open>vector_x_row_major\<close> in a parallel loop whose write index \<^verbatim>\<open>xt_index\<close> is
  listed as \<^verbatim>\<open>private\<close>: every thread starts with a copy that holds no value and
  uses it as an index at once. As soon as that loop body runs (there is a column
  and a vector) the result is \<open>PrivateUninitialised\<close>.
\<close>

definition OmpCsrSpmmT ::
  "globals \<Rightarrow> int \<Rightarrow> 'a::{zero,plus,times} CsrMatrix \<Rightarrow> (int \<Rightarrow> 'a) \<Rightarrow> 'a store \<Rightarrow> int \<Rightarrow> (int \<Rightarrow> 'a) \<Rightarrow>
     error + 'a store" where
  "OmpCsrSpmmT g num_threads a vector_x vector_y_out num_vectors vector_x_row_major =
     (if \<not> g_input_row_major g \<and> 0 < num_cols a \<and> 0 < num_vectors
      then Inl PrivateUninitialised
      else Inr (spmmt_rows g a vector_x_row_major num_vectors 0 vector_y_out))"

text \<open>
  What the fix-up has to add to cell \<open>j\<close> of the output, in the words of the
  specification: the carry-outs of the threads \<open>0 .. num_threads - 2\<close> whose recorded
  row is a valid row and contains cell \<open>j\<close>, each counted once. \<open>row\<close> and \<open>tot\<close>
  give the recorded pair of a thread.
\<close>

definition carried_into ::
  "int \<Rightarrow> int \<Rightarrow> int \<Rightarrow> (int \<Rightarrow> int) \<Rightarrow> (int \<Rightarrow> 'a::comm_monoid_add list) \<Rightarrow> int \<Rightarrow> 'a" where
  "carried_into num_threads a_num_rows num_vectors row tot j =
     (\<Sum>tid \<in> {tid \<in> {0..<num_threads - 1}. row tid < a_num_rows \<and>
                     row tid * num_vectors \<le> j \<and> j < row tid * num_vectors + num_vectors}.
        tot tid ! nat (j - row tid * num_vectors))"

text \<open>The cells \<open>js\<close> of the buffer a kernel returns.\<close>

definition cells :: "error + 'a store \<Rightarrow> int list \<Rightarrow> error + 'a list" where
  "cells result js = (case result of Inl e \<Rightarrow> Inl e | Inr Y \<Rightarrow> Inr (map Y js))"

text \<open>The four settings of the layout flags.\<close>

definition layout :: "bool \<Rightarrow> bool \<Rightarrow> globals" where
  "layout input_row_major output_row_major =
     \<lparr>g_input_row_major = input_row_major, g_output_row_major = output_row_major\<rparr>"

text \<open>
  Modelled from the spec: the product the kernels are to compute, \<open>Y = A \<cdot> X\<close>, in
  exact arithmetic. \<open>row_sum\<close> is the part of a row's product with vector \<open>i\<close> that
  comes from the nonzero positions \<open>lo \<le> k < hi\<close>, for a row-major \<open>X\<close>.
\<close>

definition row_sum ::
  "(int \<Rightarrow> int) \<Rightarrow> (int \<Rightarrow> 'a::semiring_0) \<Rightarrow> (int \<Rightarrow> 'a) \<Rightarrow> int \<Rightarrow> int \<Rightarrow> int \<Rightarrow> int \<Rightarrow> 'a" where
  "row_sum col_ind vals vector_x_row_major num_vectors lo hi i =
     (\<Sum>k = lo..<hi. vals k * vector_x_row_major (col_ind k * num_vectors + i))"

section \<open>Properties of the vector updates\<close>

lemma axpy_loop_closed:
  "(vector_x + size' \<le> vector_y \<or> vector_y + size' \<le> vector_x) \<Longrightarrow> 0 \<le> i \<Longrightarrow>
   axpy_loop size' a vector_x vector_y i h j =
     (if vector_y + i \<le> j \<and> j < vector_y + size'
      then h j + a * h (vector_x + (j - vector_y)) else h j)"
proof (induction size' a vector_x vector_y i h rule: axpy_loop.induct)
  case (1 size' a vector_x vector_y i h)
  show ?case
  proof (cases "i < size'")
    case True
    let ?h = "h(vector_y + i := h (vector_y + i) + a * h (vector_x + i))"
    have step: "axpy_loop size' a vector_x vector_y i h j
                 = axpy_loop size' a vector_x vector_y (i + 1) ?h j"
      using True by (subst axpy_loop.simps) simp
    have ih: "axpy_loop size' a vector_x vector_y (i + 1) ?h j =
        (if vector_y + (i + 1) \<le> j \<and> j < vector_y + size'
         then ?h j + a * ?h (vector_x + (j - vector_y)) else ?h j)"
    proof -
      have "0 \<le> i + 1" using "1.prems"(2) by simp
      then show ?thesis by (rule "1.IH" [OF True "1.prems"(1)])
    qed
    have away: "vector_x + k \<noteq> vector_y + i" if "0 \<le> k" "k < size'" for k
      using "1.prems" True that by auto
    show ?thesis
    proof (cases "vector_y + (i + 1) \<le> j \<and> j < vector_y + size'")
      case inside: True
      then have "vector_x + (j - vector_y) \<noteq> vector_y + i"
        using away [of "j - vector_y"] "1.prems"(2) by auto
      moreover have "j \<noteq> vector_y + i" using inside by simp
      moreover have "vector_y + i \<le> j \<and> j < vector_y + size'" using inside by simp
      ultimately show ?thesis unfolding step ih by simp
    next
      case outside: False
      show ?thesis
      proof (cases "j = vector_y + i")
        case True
        have "vector_x + i \<noteq> vector_y + i" using away [of i] True \<open>i < size'\<close> "1.prems"(2)
          by simp
        then show ?thesis unfolding step ih using True \<open>i < size'\<close> by simp
      next
        case False
        then have "\<not> (vector_y + i \<le> j \<and> j < vector_y + size')" using outside by auto
        then have "axpy_loop size' a vector_x vector_y i h j = ?h j"
          unfolding step ih by (simp only: if_not_P [OF outside])
        also have "\<dots> = h j" using False by simp
        finally show ?thesis using \<open>\<not> (vector_y + i \<le> j \<and> j < vector_y + size')\<close>
          by auto
      qed
    qed
  next
    case False
    then show ?thesis by (subst axpy_loop.simps) auto
  qed
qed

lemma axpy_2_closed:
  "0 \<le> size' \<Longrightarrow> (vector_x + size' \<le> vector_y \<or> vector_y + size' \<le> vector_x) \<Longrightarrow>
   \<exists>h'. axpy_2 size' a vector_x vector_y h = Some h' \<and>
     (\<forall>j. h' j = (if vector_y \<le> j \<and> j < vector_y + size'
                  then a * h (vector_x + (j - vector_y)) else h j))"
proof (induction size' a vector_x vector_y h rule: axpy_2.induct)
  case (1 size' a vector_x vector_y h)
  show ?case
  proof (cases "size' = 0")
    case True
    then show ?thesis by (subst axpy_2.simps) auto
  next
    case False
    with "1.prems" have pos: "0 < size'" by simp
    let ?h = "h(vector_y := a * h vector_x)"
    have step: "axpy_2 size' a vector_x vector_y h
                 = axpy_2 (size' - 1) a (vector_x + 1) (vector_y + 1) ?h"
      using pos by (subst axpy_2.simps) simp
    have "\<not> size' < 0" using pos by simp
    moreover have "0 \<le> size' - 1" using pos by simp
    moreover have "vector_x + 1 + (size' - 1) \<le> vector_y + 1 \<or>
                   vector_y + 1 + (size' - 1) \<le> vector_x + 1"
      using "1.prems"(2) by auto
    ultimately obtain h' where
      h': "axpy_2 (size' - 1) a (vector_x + 1) (vector_y + 1) ?h = Some h'"
      and cl: "\<forall>j. h' j = (if vector_y + 1 \<le> j \<and> j < vector_y + 1 + (size' - 1)
                  then a * ?h (vector_x + 1 + (j - (vector_y + 1))) else ?h j)"
      using "1.IH" [OF False] by blast
    have "h' j = (if vector_y \<le> j \<and> j < vector_y + size'
                  then a * h (vector_x + (j - vector_y)) else h j)" for j
    proof (cases "vector_y + 1 \<le> j \<and> j < vector_y + size'")
      case True
      then have "vector_x + (j - vector_y) \<noteq> vector_y"
        using "1.prems"(2) by auto
      moreover have "vector_x + 1 + (j - (vector_y + 1)) = vector_x + (j - vector_y)"
        by simp
      ultimately show ?thesis using True cl [rule_format, of j] by simp
    next
      case False
      then have "j = vector_y \<or> \<not> (vector_y \<le> j \<and> j < vector_y + size')"
        by auto
      then show ?thesis using False pos cl [rule_format, of j] by auto
    qed
    with h' step show ?thesis by simp
  qed
qed

text \<open>
  Claim C10. For every \<open>n \<ge> 0\<close>, scalar \<open>a\<close> and two separate arrays \<open>x\<close>, \<open>y\<close> of
  length at least \<open>n\<close>, \<^verbatim>\<open>axpy_2\<close> returns with \<open>y[i] = a * x[i]\<close> for every \<open>i < n\<close>
  (the old \<open>y[i]\<close> is overwritten, not added to), with \<open>x\<close> and every other cell
  unchanged, whereas \<^verbatim>\<open>axpy_\<close> leaves \<open>y[i] = y[i] + a * x[i]\<close>; and the two differ
  on a concrete input, so they are distinct operations.
\<close>

theorem axpy_2_overwrites_axpy_accumulates:
  fixes h :: "'a::{plus,times} store"
  assumes "0 \<le> n" and "x + n \<le> y \<or> y + n \<le> x"
  shows "(\<exists>h2. axpy_2 n a x y h = Some h2 \<and>
           (\<forall>i. 0 \<le> i \<and> i < n \<longrightarrow>
                 h2 (y + i) = a * h (x + i) \<and> h2 (x + i) = h (x + i) \<and>
                 axpy_' n a x y h (y + i) = h (y + i) + a * h (x + i) \<and>
                 axpy_' n a x y h (x + i) = h (x + i)) \<and>
           (\<forall>j. \<not> (y \<le> j \<and> j < y + n) \<longrightarrow> h2 j = h j \<and> axpy_' n a x y h j = h j)) \<and>
         axpy_2 1 (1::int) 0 1 (\<lambda>_. 1) \<noteq> Some (axpy_' 1 1 0 1 (\<lambda>_. 1))"
proof (rule conjI)
  from axpy_2_closed [OF assms, of a h]
  obtain h2 where h2: "axpy_2 n a x y h = Some h2"
    and cl2: "\<And>j. h2 j = (if y \<le> j \<and> j < y + n then a * h (x + (j - y)) else h j)"
    by blast
  have cl1: "axpy_' n a x y h j =
      (if y \<le> j \<and> j < y + n then h j + a * h (x + (j - y)) else h j)" for j
    unfolding axpy_'_def using axpy_loop_closed [OF assms(2), of 0 a h j] by simp
  have sep: "\<not> (y \<le> x + i \<and> x + i < y + n)" if "0 \<le> i" "i < n" for i
    using assms(2) that by auto
  have "h2 (y + i) = a * h (x + i) \<and> h2 (x + i) = h (x + i) \<and>
        axpy_' n a x y h (y + i) = h (y + i) + a * h (x + i) \<and>
        axpy_' n a x y h (x + i) = h (x + i)" if "0 \<le> i" "i < n" for i
  proof -
    have inside: "y \<le> y + i \<and> y + i < y + n" using that by simp
    have "h2 (y + i) = a * h (x + (y + i - y))"
      using cl2 [of "y + i"] inside by simp
    moreover have "axpy_' n a x y h (y + i) = h (y + i) + a * h (x + (y + i - y))"
      using cl1 [of "y + i"] inside by simp
    moreover have "h2 (x + i) = h (x + i)"
      using cl2 [of "x + i"] by (simp only: if_not_P [OF sep [OF that]])
    moreover have "axpy_' n a x y h (x + i) = h (x + i)"
      using cl1 [of "x + i"] by (simp only: if_not_P [OF sep [OF that]])
    ultimately show ?thesis by simp
  qed
  moreover have "h2 j = h j \<and> axpy_' n a x y h j = h j" if "\<not> (y \<le> j \<and> j < y + n)" for j
    using cl1 [of j] cl2 [of j] by (simp only: if_not_P [OF that])
  ultimately show "\<exists>h2. axpy_2 n a x y h = Some h2 \<and>
           (\<forall>i. 0 \<le> i \<and> i < n \<longrightarrow>
                 h2 (y + i) = a * h (x + i) \<and> h2 (x + i) = h (x + i) \<and>
                 axpy_' n a x y h (y + i) = h (y + i) + a * h (x + i) \<and>
                 axpy_' n a x y h (x + i) = h (x + i)) \<and>
           (\<forall>j. \<not> (y \<le> j \<and> j < y + n) \<longrightarrow> h2 j = h j \<and> axpy_' n a x y h j = h j)"
    using h2 by blast
next
  have a2: "axpy_2 1 (1::int) 0 1 (\<lambda>_. 1) = Some ((\<lambda>_. 1)(1 := 1))"
    by (simp add: axpy_2.simps)
  have a1: "axpy_' 1 (1::int) 0 1 (\<lambda>_. 1) = (\<lambda>_. 1)(1 := 2)"
    by (simp add: axpy_'_def axpy_loop.simps)
  show "axpy_2 1 (1::int) 0 1 (\<lambda>_. 1) \<noteq> Some (axpy_' 1 1 0 1 (\<lambda>_. 1))"
  proof
    assume "axpy_2 1 (1::int) 0 1 (\<lambda>_. 1) = Some (axpy_' 1 1 0 1 (\<lambda>_. 1))"
    then have "(\<lambda>_::int. 1::int)(1 := 1) = (\<lambda>_::int. 1::int)(1 := 2)"
      unfolding a1 a2 by simp
    then have "((\<lambda>_::int. 1::int)(1 := 1)) 1 = ((\<lambda>_::int. 1::int)(1 := 2)) 1"
      by (rule fun_cong)
    then show False by simp
  qed
qed

theorem axpy_2_overwrites_axpy_accumulates_witness:
  "\<exists>h2. axpy_2 2 (3::int) 0 2 (\<lambda>j. j) = Some h2 \<and>
        h2 2 = 0 \<and> h2 3 = 3 \<and> h2 1 = 1 \<and>
        axpy_' 2 (3::int) 0 2 (\<lambda>j. j) 3 = 6"
proof -
  have n: "(0::int) \<le> 2" and sep: "(0::int) + 2 \<le> 2 \<or> (2::int) + 2 \<le> 0"
    by simp_all
  from axpy_2_overwrites_axpy_accumulates [OF n sep, of 3 "\<lambda>j. j"]
  obtain h2 where h2: "axpy_2 2 (3::int) 0 2 (\<lambda>j. j) = Some h2"
    and each: "\<forall>i. 0 \<le> i \<and> i < 2 \<longrightarrow>
                 h2 (2 + i) = 3 * (0 + i) \<and> h2 (0 + i) = 0 + i \<and>
                 axpy_' 2 3 0 2 (\<lambda>j. j) (2 + i) = 2 + i + 3 * (0 + i) \<and>
                 axpy_' 2 3 0 2 (\<lambda>j. j) (0 + i) = 0 + i"
    by blast
  from each [rule_format, of 0] each [rule_format, of 1] h2
  show ?thesis by simp
qed

section \<open>Work conservation\<close>

lemma c_div_nonneg: "0 \<le> m \<Longrightarrow> 0 < n \<Longrightarrow> c_div m n = m div n"
  by (simp add: c_div_def sgn_if)

lemma ceil_share:
  assumes "0 \<le> N" "1 \<le> nt"
  shows "0 \<le> c_div (N + nt - 1) nt" and "N \<le> c_div (N + nt - 1) nt * nt"
proof -
  have eq: "c_div (N + nt - 1) nt = (N + nt - 1) div nt"
    using assms by (intro c_div_nonneg) auto
  show "0 \<le> c_div (N + nt - 1) nt"
    unfolding eq using assms by (simp add: pos_imp_zdiv_nonneg_iff)
  have "(N + nt - 1) = (N + nt - 1) div nt * nt + (N + nt - 1) mod nt"
    by simp
  moreover have "(N + nt - 1) mod nt \<le> nt - 1"
    using assms pos_mod_bound [of nt "N + nt - 1"] by simp
  ultimately show "N \<le> c_div (N + nt - 1) nt * nt"
    unfolding eq by linarith
qed

lemma chunk_partition:
  fixes ipt N nt :: int
  assumes ipt: "0 \<le> ipt" and N: "0 \<le> N" and cover: "N \<le> ipt * nt" and d: "0 \<le> d" "d < N"
  shows "\<exists>!tid. 0 \<le> tid \<and> tid < nt \<and> min (ipt * tid) N \<le> d \<and> d < min (min (ipt * tid) N + ipt) N"
proof -
  have pos: "0 < ipt"
  proof (rule ccontr)
    assume "\<not> 0 < ipt"
    with ipt have "ipt = 0" by simp
    with cover d show False by simp
  qed
  have char: "(min (ipt * tid) N \<le> d \<and> d < min (min (ipt * tid) N + ipt) N) \<longleftrightarrow> tid = d div ipt" for tid
  proof
    assume h: "min (ipt * tid) N \<le> d \<and> d < min (min (ipt * tid) N + ipt) N"
    then have lo: "ipt * tid \<le> d" using d by (auto simp: min_def split: if_splits)
    from h have hi: "d < ipt * tid + ipt" by (auto simp: min_def split: if_splits)
    have "d div ipt = ((d - ipt * tid) + ipt * tid) div ipt" by simp
    also have "\<dots> = tid + (d - ipt * tid) div ipt"
      using pos by (subst div_mult_self2) auto
    also have "(d - ipt * tid) div ipt = 0"
      using lo hi by (intro div_pos_pos_trivial) auto
    finally show "tid = d div ipt" by simp
  next
    assume t: "tid = d div ipt"
    have lo: "ipt * tid \<le> d" unfolding t
      using pos pos_mod_sign [of ipt d] mult_div_mod_eq [of ipt d] by linarith
    have hi: "d < ipt * tid + ipt" unfolding t
      using pos pos_mod_bound [of ipt d] mult_div_mod_eq [of ipt d] by linarith
    show "min (ipt * tid) N \<le> d \<and> d < min (min (ipt * tid) N + ipt) N"
      using lo hi d by (auto simp: min_def)
  qed
  have range: "0 \<le> d div ipt \<and> d div ipt < nt"
  proof
    show "0 \<le> d div ipt" using pos d by (simp add: pos_imp_zdiv_nonneg_iff)
    have "ipt * (d div ipt) \<le> d"
      using pos pos_mod_sign [of ipt d] mult_div_mod_eq [of ipt d] by linarith
    then have "ipt * (d div ipt) < ipt * nt" using d cover by linarith
    then show "d div ipt < nt" using pos by (simp add: mult_less_cancel_left)
  qed
  show ?thesis
    using char range by (intro ex1I [where a = "d div ipt"]) auto
qed

lemma chunk_bounds:
  fixes ipt N :: int
  assumes "0 \<le> ipt" "0 \<le> N" "0 \<le> tid"
  shows "0 \<le> min (ipt * tid) N \<and> min (ipt * tid) N \<le> min (min (ipt * tid) N + ipt) N \<and>
         min (min (ipt * tid) N + ipt) N \<le> N"
  using assms by (auto simp: min_def)

lemma RowPathSearch_keeps_y: "coord_y (RowPathSearch a b a_len path_coordinate) = coord_y path_coordinate"
  by (simp add: RowPathSearch_def)

text \<open>
  Claim C5. For every matrix with non-negative dimensions and every
  \<open>num_threads \<ge> 1\<close>, every diagonal of \<open>[0, num_rows + num_nonzeros)\<close> lies in
  the range \<open>[start_diagonal, end_diagonal)\<close> of exactly one thread of the merge-path
  kernel, every nonzero position of \<open>[0, num_nonzeros)\<close> lies in the range
  \<open>[thread_coord.y, thread_coord_end.y)\<close> of exactly one thread of the nonzero-split
  kernel, and no range leaves the interval it partitions.
\<close>

theorem work_conservation:
  assumes "1 \<le> num_threads" and "0 \<le> num_rows a" and "0 \<le> num_nonzeros a"
  shows "(\<forall>d. 0 \<le> d \<and> d < num_rows a + num_nonzeros a \<longrightarrow>
            (\<exists>!tid. 0 \<le> tid \<and> tid < num_threads \<and>
                    merge_start_diagonal num_threads a tid \<le> d \<and>
                    d < merge_end_diagonal num_threads a tid)) \<and>
         (\<forall>tid. 0 \<le> tid \<and> tid < num_threads \<longrightarrow>
            0 \<le> merge_start_diagonal num_threads a tid \<and>
            merge_start_diagonal num_threads a tid \<le> merge_end_diagonal num_threads a tid \<and>
            merge_end_diagonal num_threads a tid \<le> num_rows a + num_nonzeros a) \<and>
         (\<forall>k. 0 \<le> k \<and> k < num_nonzeros a \<longrightarrow>
            (\<exists>!tid. 0 \<le> tid \<and> tid < num_threads \<and>
                    coord_y (nzsplit_thread_coord num_threads a row_end_offsets tid) \<le> k \<and>
                    k < coord_y (nzsplit_thread_coord_end num_threads a row_end_offsets tid))) \<and>
         (\<forall>tid. 0 \<le> tid \<and> tid < num_threads \<longrightarrow>
            0 \<le> coord_y (nzsplit_thread_coord num_threads a row_end_offsets tid) \<and>
            coord_y (nzsplit_thread_coord num_threads a row_end_offsets tid)
              \<le> coord_y (nzsplit_thread_coord_end num_threads a row_end_offsets tid) \<and>
            coord_y (nzsplit_thread_coord_end num_threads a row_end_offsets tid) \<le> num_nonzeros a)"
proof -
  let ?N = "num_rows a + num_nonzeros a"
  have N: "0 \<le> ?N" using assms by simp
  have m_ipt: "0 \<le> merge_items_per_thread num_threads a"
    and m_cover: "?N \<le> merge_items_per_thread num_threads a * num_threads"
    unfolding merge_items_per_thread_def using ceil_share [OF N assms(1)] by simp_all
  have n_ipt: "0 \<le> nzsplit_items_per_thread num_threads a"
    and n_cover: "num_nonzeros a \<le> nzsplit_items_per_thread num_threads a * num_threads"
    unfolding nzsplit_items_per_thread_def using ceil_share [OF assms(3) assms(1)] by simp_all
  have 1: "\<exists>!tid. 0 \<le> tid \<and> tid < num_threads \<and>
                    merge_start_diagonal num_threads a tid \<le> d \<and>
                    d < merge_end_diagonal num_threads a tid"
    if "0 \<le> d \<and> d < ?N" for d
    unfolding merge_start_diagonal_def merge_end_diagonal_def
    using chunk_partition [OF m_ipt N _ _ _, of num_threads d] m_cover that
    by (simp add: mult.commute)
  have 2: "0 \<le> merge_start_diagonal num_threads a tid \<and>
            merge_start_diagonal num_threads a tid \<le> merge_end_diagonal num_threads a tid \<and>
            merge_end_diagonal num_threads a tid \<le> ?N" if "0 \<le> tid \<and> tid < num_threads" for tid
    unfolding merge_start_diagonal_def merge_end_diagonal_def
    using chunk_bounds [OF m_ipt N, of tid] that by simp
  have 3: "\<exists>!tid. 0 \<le> tid \<and> tid < num_threads \<and>
                    coord_y (nzsplit_thread_coord num_threads a row_end_offsets tid) \<le> k \<and>
                    k < coord_y (nzsplit_thread_coord_end num_threads a row_end_offsets tid)"
    if "0 \<le> k \<and> k < num_nonzeros a" for k
    unfolding nzsplit_thread_coord_def nzsplit_thread_coord_end_def RowPathSearch_keeps_y
      int2.sel nzsplit_start_y_def nzsplit_end_y_def
    using chunk_partition [OF n_ipt assms(3) _ _ _, of num_threads k] n_cover that
    by (simp add: mult.commute)
  have 4: "0 \<le> coord_y (nzsplit_thread_coord num_threads a row_end_offsets tid) \<and>
            coord_y (nzsplit_thread_coord num_threads a row_end_offsets tid)
              \<le> coord_y (nzsplit_thread_coord_end num_threads a row_end_offsets tid) \<and>
            coord_y (nzsplit_thread_coord_end num_threads a row_end_offsets tid) \<le> num_nonzeros a"
    if "0 \<le> tid \<and> tid < num_threads" for tid
    unfolding nzsplit_thread_coord_def nzsplit_thread_coord_end_def RowPathSearch_keeps_y
      int2.sel nzsplit_start_y_def nzsplit_end_y_def
    using chunk_bounds [OF n_ipt assms(3), of tid] that by simp
  from 1 2 3 4 show ?thesis by blast
qed

theorem work_conservation_witness:
  "(\<exists>!tid. 0 \<le> tid \<and> tid < 3 \<and> merge_start_diagonal 3 csr_2x2 tid \<le> 2 \<and>
           2 < merge_end_diagonal 3 csr_2x2 tid) \<and>
   (\<exists>!tid. 0 \<le> tid \<and> tid < 3 \<and>
           coord_y (nzsplit_thread_coord 3 csr_2x2 (ptr_add (ptr (row_offsets csr_2x2)) 1) tid) \<le> 1 \<and>
           1 < coord_y (nzsplit_thread_coord_end 3 csr_2x2 (ptr_add (ptr (row_offsets csr_2x2)) 1) tid)) \<and>
   merge_start_diagonal 3 csr_2x2 1 = 2 \<and> merge_end_diagonal 3 csr_2x2 1 = 4"
proof -
  have h: "(1::int) \<le> 3" "0 \<le> num_rows csr_2x2" "0 \<le> num_nonzeros csr_2x2"
    by (simp_all add: csr_2x2_def)
  have ev: "merge_start_diagonal 3 csr_2x2 1 = 2 \<and> merge_end_diagonal 3 csr_2x2 1 = 4"
    by (simp add: merge_start_diagonal_def merge_end_diagonal_def merge_items_per_thread_def
        c_div_def csr_2x2_def)
  from work_conservation [OF h, of "ptr_add (ptr (row_offsets csr_2x2)) 1"] ev
  show ?thesis by (simp add: csr_2x2_def)
qed

section \<open>The diagonal search\<close>

lemma MergePathSearch_loop_spec:
  assumes "\<forall>x x'. lo \<le> x \<and> x \<le> x' \<and> x' < hi \<and> a x' \<le> b (d - x' - 1) \<longrightarrow> a x \<le> b (d - x - 1)"
    and "lo \<le> x_min" and "x_min \<le> x_max" and "x_max \<le> hi"
    and "\<forall>x. lo \<le> x \<and> x < x_min \<longrightarrow> a x \<le> b (d - x - 1)"
    and "\<forall>x. x_max \<le> x \<and> x < hi \<longrightarrow> \<not> a x \<le> b (d - x - 1)"
  shows "x_min \<le> MergePathSearch_loop d a b x_min x_max \<and>
         MergePathSearch_loop d a b x_min x_max \<le> x_max \<and>
         (\<forall>x. lo \<le> x \<and> x < MergePathSearch_loop d a b x_min x_max \<longrightarrow> a x \<le> b (d - x - 1)) \<and>
         (\<forall>x. MergePathSearch_loop d a b x_min x_max \<le> x \<and> x < hi \<longrightarrow> \<not> a x \<le> b (d - x - 1))"
  using assms
proof (induction d a b x_min x_max rule: MergePathSearch_loop.induct)
  case (1 d a b x_min x_max)
  let ?p = "(x_min + x_max) div 2"
  show ?case
  proof (cases "x_min < x_max")
    case False
    then have "MergePathSearch_loop d a b x_min x_max = x_min"
      by (subst MergePathSearch_loop.simps) simp
    moreover have "x_min = x_max" using False "1.prems"(3) by simp
    ultimately show ?thesis using "1.prems" by simp
  next
    case True
    then have p: "x_min \<le> ?p" "?p < x_max" by simp_all
    show ?thesis
    proof (cases "a ?p \<le> b (d - ?p - 1)")
      case up: True
      have eq: "MergePathSearch_loop d a b x_min x_max = MergePathSearch_loop d a b (?p + 1) x_max"
        using True up by (subst MergePathSearch_loop.simps) simp
      have below: "\<forall>x. lo \<le> x \<and> x < ?p + 1 \<longrightarrow> a x \<le> b (d - x - 1)"
      proof (intro allI impI)
        fix x assume x: "lo \<le> x \<and> x < ?p + 1"
        have "lo \<le> x \<and> x \<le> ?p \<and> ?p < hi \<and> a ?p \<le> b (d - ?p - 1)"
          using x p "1.prems"(4) up by simp
        with "1.prems"(1) show "a x \<le> b (d - x - 1)" by blast
      qed
      have "?p + 1 \<le> MergePathSearch_loop d a b (?p + 1) x_max \<and>
         MergePathSearch_loop d a b (?p + 1) x_max \<le> x_max \<and>
         (\<forall>x. lo \<le> x \<and> x < MergePathSearch_loop d a b (?p + 1) x_max \<longrightarrow> a x \<le> b (d - x - 1)) \<and>
         (\<forall>x. MergePathSearch_loop d a b (?p + 1) x_max \<le> x \<and> x < hi \<longrightarrow> \<not> a x \<le> b (d - x - 1))"
      proof (rule "1.IH"(1) [OF True up "1.prems"(1) _ _ "1.prems"(4) below "1.prems"(6)])
        show "lo \<le> ?p + 1" using p "1.prems"(2) by simp
        show "?p + 1 \<le> x_max" using p by simp
      qed
      then show ?thesis unfolding eq using p by simp
    next
      case down: False
      have eq: "MergePathSearch_loop d a b x_min x_max = MergePathSearch_loop d a b x_min ?p"
        using True down by (subst MergePathSearch_loop.simps) simp
      have above: "\<forall>x. ?p \<le> x \<and> x < hi \<longrightarrow> \<not> a x \<le> b (d - x - 1)"
      proof (intro allI impI notI)
        fix x assume x: "?p \<le> x \<and> x < hi" and ax: "a x \<le> b (d - x - 1)"
        have "lo \<le> ?p \<and> ?p \<le> x \<and> x < hi \<and> a x \<le> b (d - x - 1)"
          using x p "1.prems"(2) ax by simp
        with "1.prems"(1) have "a ?p \<le> b (d - ?p - 1)" by blast
        with down show False by simp
      qed
      have "x_min \<le> MergePathSearch_loop d a b x_min ?p \<and>
         MergePathSearch_loop d a b x_min ?p \<le> ?p \<and>
         (\<forall>x. lo \<le> x \<and> x < MergePathSearch_loop d a b x_min ?p \<longrightarrow> a x \<le> b (d - x - 1)) \<and>
         (\<forall>x. MergePathSearch_loop d a b x_min ?p \<le> x \<and> x < hi \<longrightarrow> \<not> a x \<le> b (d - x - 1))"
      proof (rule "1.IH"(2) [OF True down "1.prems"(1) "1.prems"(2) _ _ "1.prems"(5) above])
        show "x_min \<le> ?p" using p by simp
        show "?p \<le> hi" using p "1.prems"(4) by simp
      qed
      then show ?thesis unfolding eq using p by simp
    qed
  qed
qed


lemma MergePathSearch_least:
  assumes len: "0 \<le> a_len" "0 \<le> b_len" and d: "0 \<le> d" "d \<le> a_len + b_len"
    and mono: "\<forall>i j. 0 \<le> i \<and> i \<le> j \<and> j < a_len \<longrightarrow> a i \<le> a j"
    and range: "\<forall>i. 0 \<le> i \<and> i < a_len \<longrightarrow> 0 \<le> a i \<and> a i \<le> b_len"
  defines "c \<equiv> MergePathSearch d a (CountingInputIterator 0) a_len b_len"
  shows "coord_y c = d - coord_x c"
    and "max (d - b_len) 0 \<le> coord_x c" and "coord_x c \<le> min d a_len"
    and "\<forall>x. 0 \<le> x \<and> x < coord_x c \<longrightarrow> a x + x < d"
    and "\<forall>x. coord_x c \<le> x \<and> x < a_len \<longrightarrow> d \<le> a x + x"
proof -
  let ?b = "CountingInputIterator 0"
  let ?lo = "max (d - b_len) 0" and ?hi = "min d a_len"
  let ?r = "MergePathSearch_loop d a ?b ?lo ?hi"
  have P: "a x \<le> ?b (d - x - 1) \<longleftrightarrow> a x + x < d" for x
    by (auto simp: CountingInputIterator_def)
  have lohi: "?lo \<le> ?hi" using len d by auto
  have anti: "\<forall>x x'. ?lo \<le> x \<and> x \<le> x' \<and> x' < ?hi \<and> a x' \<le> ?b (d - x' - 1)
                  \<longrightarrow> a x \<le> ?b (d - x - 1)"
  proof (intro allI impI)
    fix x x' assume h: "?lo \<le> x \<and> x \<le> x' \<and> x' < ?hi \<and> a x' \<le> ?b (d - x' - 1)"
    then have "0 \<le> x \<and> x \<le> x' \<and> x' < a_len" by auto
    with mono have "a x \<le> a x'" by blast
    with h show "a x \<le> ?b (d - x - 1)" unfolding P by auto
  qed
  have spec: "?lo \<le> ?r \<and> ?r \<le> ?hi \<and>
      (\<forall>x. ?lo \<le> x \<and> x < ?r \<longrightarrow> a x \<le> ?b (d - x - 1)) \<and>
      (\<forall>x. ?r \<le> x \<and> x < ?hi \<longrightarrow> \<not> a x \<le> ?b (d - x - 1))"
    by (rule MergePathSearch_loop_spec [OF anti order_refl lohi order_refl]) auto
  have cx: "coord_x c = ?r" and cy: "coord_y c = d - ?r"
    using spec by (simp_all add: c_def MergePathSearch_def Let_def)
  show "coord_y c = d - coord_x c" unfolding cx cy ..
  show "max (d - b_len) 0 \<le> coord_x c" unfolding cx using spec by blast
  show "coord_x c \<le> min d a_len" unfolding cx using spec by blast
  show "\<forall>x. 0 \<le> x \<and> x < coord_x c \<longrightarrow> a x + x < d"
  proof (intro allI impI)
    fix x assume x: "0 \<le> x \<and> x < coord_x c"
    show "a x + x < d"
    proof (cases "?lo \<le> x")
      case True
      with x spec have "a x \<le> ?b (d - x - 1)" unfolding cx by blast
      then show ?thesis unfolding P .
    next
      case False
      then have lt: "x < d - b_len" using x by auto
      have "x < a_len" using x spec unfolding cx by auto
      with x range have "a x \<le> b_len" by blast
      with lt show ?thesis by simp
    qed
  qed
  show "\<forall>x. coord_x c \<le> x \<and> x < a_len \<longrightarrow> d \<le> a x + x"
  proof (intro allI impI)
    fix x assume x: "coord_x c \<le> x \<and> x < a_len"
    have x0: "0 \<le> x" using x spec unfolding cx by auto
    show "d \<le> a x + x"
    proof (cases "x < ?hi")
      case True
      with x spec have "\<not> a x \<le> ?b (d - x - 1)" unfolding cx by blast
      then show ?thesis unfolding P by simp
    next
      case False
      then have "d \<le> x" using x by auto
      moreover have "0 \<le> a x" using range x x0 by blast
      ultimately show ?thesis by simp
    qed
  qed
qed

lemma row_end_offsets_of_nth:
  "0 \<le> i \<Longrightarrow> row_end_offsets_of A i = row_offsets A ! Suc (nat i)"
  by (simp add: row_end_offsets_of_def ptr_add_def ptr_def nat_add_distrib)

lemma row_end_offsets_of_mono:
  assumes "csr_invariants A" and "0 \<le> i" and "i \<le> j" and "j < num_rows A"
  shows "row_end_offsets_of A i \<le> row_end_offsets_of A j"
proof -
  have "sorted (row_offsets A)" and "length (row_offsets A) = nat (num_rows A) + 1"
    using assms(1) by (simp_all add: csr_invariants_def)
  moreover have "Suc (nat i) \<le> Suc (nat j)" and "Suc (nat j) < nat (num_rows A) + 1"
    using assms by simp_all
  ultimately have "row_offsets A ! Suc (nat i) \<le> row_offsets A ! Suc (nat j)"
    by (intro sorted_nth_mono) simp_all
  then show ?thesis using assms by (simp add: row_end_offsets_of_nth)
qed

lemma row_end_offsets_of_range:
  assumes "csr_invariants A" and "0 \<le> i" and "i < num_rows A"
  shows "0 \<le> row_end_offsets_of A i \<and> row_end_offsets_of A i \<le> num_nonzeros A"
proof -
  have s: "sorted (row_offsets A)" and l: "length (row_offsets A) = nat (num_rows A) + 1"
    and z: "row_offsets A ! 0 = 0" and e: "row_offsets A ! nat (num_rows A) = num_nonzeros A"
    using assms(1) by (simp_all add: csr_invariants_def)
  have i: "Suc (nat i) \<le> nat (num_rows A)" using assms by simp
  have "row_offsets A ! 0 \<le> row_offsets A ! Suc (nat i)"
    using s l i assms by (intro sorted_nth_mono) simp_all
  moreover have "row_offsets A ! Suc (nat i) \<le> row_offsets A ! nat (num_rows A)"
    using s l i assms by (intro sorted_nth_mono) simp_all
  ultimately show ?thesis using z e assms by (simp add: row_end_offsets_of_nth)
qed

lemma csr_invariants_csr_2x2: "csr_invariants csr_2x2"
  by (simp add: csr_invariants_def csr_2x2_def)

text \<open>
  Claim C6, as amended. Let \<open>a\<close> be non-decreasing on \<open>[0, a_len)\<close> with entries
  between 0 and \<open>b_len\<close> (as the row-end offsets \<^verbatim>\<open>row_offsets + 1\<close> are), \<open>b\<close> the
  counting sequence from 0, and \<open>0 \<le> d \<le> a_len + b_len\<close>. Then \<^verbatim>\<open>MergePathSearch\<close>
  returns \<open>(x, y)\<close> with \<open>x + y = d\<close>, \<open>max (d - b_len) 0 \<le> x \<le> min d a_len\<close>, and \<open>x\<close>
  is the only split in \<open>[0, a_len]\<close> with \<open>a[x - 1] \<le> d - x\<close> (when \<open>x > 0\<close>) and
  \<open>d - x \<le> a[x]\<close> (when \<open>x < a_len\<close>); in terms of the matrix,
  \<open>row_offsets[x] \<le> d - x \<le> row_offsets[x + 1]\<close>. The second inequality is not
  strict: see the counterexample below.
\<close>

theorem MergePathSearch_split:
  assumes "0 \<le> a_len" and "0 \<le> b_len" and "0 \<le> d" and "d \<le> a_len + b_len"
    and mono: "\<forall>i j. 0 \<le> i \<and> i \<le> j \<and> j < a_len \<longrightarrow> a i \<le> a j"
    and range: "\<forall>i. 0 \<le> i \<and> i < a_len \<longrightarrow> 0 \<le> a i \<and> a i \<le> b_len"
  shows "\<exists>x y. MergePathSearch d a (CountingInputIterator 0) a_len b_len = Int2 x y \<and>
           x + y = d \<and> max (d - b_len) 0 \<le> x \<and> x \<le> min d a_len \<and>
           (0 < x \<longrightarrow> a (x - 1) \<le> y) \<and> (x < a_len \<longrightarrow> y \<le> a x) \<and>
           (\<forall>x'. 0 \<le> x' \<and> x' \<le> a_len \<and> (0 < x' \<longrightarrow> a (x' - 1) \<le> d - x') \<and>
                 (x' < a_len \<longrightarrow> d - x' \<le> a x') \<longrightarrow> x' = x)"
proof -
  let ?c = "MergePathSearch d a (CountingInputIterator 0) a_len b_len"
  let ?x = "coord_x ?c" and ?y = "coord_y ?c"
  note L = MergePathSearch_least [OF assms]
  have y: "?y = d - ?x" by (rule L(1))
  have lo: "max (d - b_len) 0 \<le> ?x" and hi: "?x \<le> min d a_len" by (rule L(2), rule L(3))
  have below: "a x + x < d" if "0 \<le> x" "x < ?x" for x using L(4) that by blast
  have above: "d \<le> a x + x" if "?x \<le> x" "x < a_len" for x using L(5) that by blast
  have x0: "0 \<le> ?x" using lo by simp
  have p1: "0 < ?x \<longrightarrow> a (?x - 1) \<le> ?y"
  proof
    assume "0 < ?x"
    then have "a (?x - 1) + (?x - 1) < d" by (intro below) auto
    then show "a (?x - 1) \<le> ?y" unfolding y by simp
  qed
  have p2: "?x < a_len \<longrightarrow> ?y \<le> a ?x"
  proof
    assume "?x < a_len"
    then have "d \<le> a ?x + ?x" by (intro above) auto
    then show "?y \<le> a ?x" unfolding y by simp
  qed
  have uniq: "x' = ?x"
    if h: "0 \<le> x' \<and> x' \<le> a_len \<and> (0 < x' \<longrightarrow> a (x' - 1) \<le> d - x') \<and>
           (x' < a_len \<longrightarrow> d - x' \<le> a x')" for x'
  proof (rule ccontr)
    assume ne: "x' \<noteq> ?x"
    show False
    proof (cases "x' < ?x")
      case True
      then have "a x' + x' < d" using h by (intro below) auto
      moreover have "x' < a_len" using True hi by simp
      ultimately show False using h by simp
    next
      case False
      with ne have gt: "?x < x'" by simp
      then have "d \<le> a (x' - 1) + (x' - 1)" using h by (intro above) auto
      moreover have "0 < x'" using gt x0 by simp
      ultimately show False using h by simp
    qed
  qed
  have "?c = Int2 ?x ?y" by simp
  moreover have "?x + ?y = d" unfolding y by simp
  ultimately show ?thesis using lo hi p1 p2 uniq by blast
qed

theorem MergePathSearch_split_witness:
  "\<exists>x y. MergePathSearch 2 (row_end_offsets_of csr_2x2) (CountingInputIterator 0) 2 2 = Int2 x y \<and>
         x + y = 2 \<and> 0 \<le> x \<and> x \<le> 2 \<and>
         (0 < x \<longrightarrow> row_end_offsets_of csr_2x2 (x - 1) \<le> y) \<and>
         (x < 2 \<longrightarrow> y \<le> row_end_offsets_of csr_2x2 x)"
proof -
  have nr: "num_rows csr_2x2 = 2" and nz: "num_nonzeros csr_2x2 = 2"
    by (simp_all add: csr_2x2_def)
  have mono: "\<forall>i j. 0 \<le> i \<and> i \<le> j \<and> j < 2 \<longrightarrow>
                 row_end_offsets_of csr_2x2 i \<le> row_end_offsets_of csr_2x2 j"
    using row_end_offsets_of_mono [OF csr_invariants_csr_2x2] nr by simp
  have range: "\<forall>i. 0 \<le> i \<and> i < 2 \<longrightarrow>
                 0 \<le> row_end_offsets_of csr_2x2 i \<and> row_end_offsets_of csr_2x2 i \<le> 2"
    using row_end_offsets_of_range [OF csr_invariants_csr_2x2] nr nz by simp
  have "(0::int) \<le> 2" and "(2::int) \<le> 2 + 2" by simp_all
  from MergePathSearch_split [OF this(1) this(1) this(1) this(2) mono range]
  show ?thesis by simp blast
qed

text \<open>
  The claim as stated asks for \<open>row_offsets[x + 1] > d - x\<close>. For the 1 by 1 matrix
  with one nonzero (\<open>row_offsets = [0, 1]\<close>) and \<open>d = 1\<close> the search returns
  \<open>(0, 1)\<close>, and \<open>row_offsets[1] = 1\<close> is not above \<open>d - x = 1\<close>.
\<close>

theorem MergePathSearch_strict_counterexample:
  "MergePathSearch 1 (ptr_add (ptr [0, 1]) 1) (CountingInputIterator 0) 1 1 = Int2 0 1 \<and>
   \<not> ((1::int) - 0 < ptr [0, 1] (0 + 1))"
  by (simp add: MergePathSearch_def MergePathSearch_loop.simps ptr_add_def ptr_def
      CountingInputIterator_def)

section \<open>The end of the last thread\<close>

text \<open>The defining equations, for evaluating the kernels on concrete inputs.\<close>

lemmas eval_simps = MergePathSearch_def MergePathSearch_loop.simps RowPathSearch_def RowPathSearch_loop.simps
  ptr_add_def ptr_def row_end_offsets_of_def CountingInputIterator_def c_div_def
  merge_items_per_thread_def merge_start_diagonal_def merge_end_diagonal_def merge_thread_coord_def merge_thread_coord_end_def
  nzsplit_items_per_thread_def nzsplit_start_y_def nzsplit_end_y_def nzsplit_thread_coord_def nzsplit_thread_coord_end_def
  accumulate_def consume_nonzeros.simps write_and_reset_def consume_rows.simps thread_work_def
  carry_write_def carry_read_def run_threads.simps add_carry_def carry_out_fixup.simps
  load_balanced_csrmm_def OmpMergeCsrmm_def OmpNonzeroSplitCsrmm_def
  merge_coords_def nzsplit_coords_def one_thread_each_def team_of_two_def
  y_index_def write_partial_def spmmt_rows.simps OmpCsrSpmmT_def cells_def layout_def
  SpmvGold_row.simps SpmvGold_rows.simps SpmvGold_def


text \<open>
  In the merge-path kernel the last thread ends at the diagonal
  \<open>num_rows + num_nonzeros\<close>, where the search is confined to \<open>x = num_rows\<close>: the
  carry-out that the fix-up skips belongs to no row.
\<close>

lemma last_end_diagonal:
  assumes "1 \<le> num_threads" and "0 \<le> num_rows a" and "0 \<le> num_nonzeros a"
  shows "merge_end_diagonal num_threads a (num_threads - 1) = num_rows a + num_nonzeros a"
proof -
  let ?N = "num_rows a + num_nonzeros a" and ?ipt = "merge_items_per_thread num_threads a"
  have N: "0 \<le> ?N" using assms by simp
  have ipt: "0 \<le> ?ipt" and cover: "?N \<le> ?ipt * num_threads"
    unfolding merge_items_per_thread_def using ceil_share [OF N assms(1)] by simp_all
  have "?ipt * (num_threads - 1) + ?ipt = ?ipt * num_threads" by (simp add: algebra_simps)
  then have "?N \<le> min (?ipt * (num_threads - 1)) ?N + ?ipt"
    using cover ipt by (simp add: min_def)
  then show ?thesis by (simp add: merge_end_diagonal_def merge_start_diagonal_def)
qed

lemma merge_last_thread_ends_at_num_rows:
  assumes "1 \<le> num_threads" and "0 \<le> num_rows a" and "0 \<le> num_nonzeros a"
  shows "merge_thread_coord_end num_threads a row_end_offsets (num_threads - 1)
           = Int2 (num_rows a) (num_nonzeros a)"
  unfolding merge_thread_coord_end_def last_end_diagonal [OF assms] MergePathSearch_def
  using assms by (subst MergePathSearch_loop.simps) (simp add: Let_def)

text \<open>
  In the nonzero-split kernel the row-position search stops at the first row whose
  end offset reaches \<open>y\<close>. For \<open>y = num_nonzeros > 0\<close> that is the last row with a
  nonzero, so the last thread ends before \<open>num_rows\<close> on every matrix.
\<close>

lemma RowPathSearch_loop_spec:
  assumes "\<forall>x x'. lo \<le> x \<and> x \<le> x' \<and> x' < hi \<and> a x' \<le> b (coord_y c - 1) \<longrightarrow> a x \<le> b (coord_y c - 1)"
    and "lo \<le> x_min" and "x_min \<le> x_max" and "x_max \<le> hi"
    and "\<forall>x. lo \<le> x \<and> x < x_min \<longrightarrow> a x \<le> b (coord_y c - 1)"
    and "\<forall>x. x_max \<le> x \<and> x < hi \<longrightarrow> \<not> a x \<le> b (coord_y c - 1)"
  shows "x_min \<le> RowPathSearch_loop a b c x_min x_max \<and>
         RowPathSearch_loop a b c x_min x_max \<le> x_max \<and>
         (\<forall>x. lo \<le> x \<and> x < RowPathSearch_loop a b c x_min x_max \<longrightarrow> a x \<le> b (coord_y c - 1)) \<and>
         (\<forall>x. RowPathSearch_loop a b c x_min x_max \<le> x \<and> x < hi \<longrightarrow> \<not> a x \<le> b (coord_y c - 1))"
  using assms
proof (induction "nat (x_max - x_min)" arbitrary: x_min x_max rule: less_induct)
  case less
  let ?p = "(x_min + x_max) div 2"
  show ?case
  proof (cases "x_min < x_max")
    case False
    then have "RowPathSearch_loop a b c x_min x_max = x_min"
      by (subst RowPathSearch_loop.simps) simp
    moreover have "x_min = x_max" using False less.prems(3) by simp
    ultimately show ?thesis using less.prems by simp
  next
    case True
    then have p: "x_min \<le> ?p" "?p < x_max" by simp_all
    show ?thesis
    proof (cases "a ?p \<le> b (coord_y c - 1)")
      case up: True
      have eq: "RowPathSearch_loop a b c x_min x_max = RowPathSearch_loop a b c (?p + 1) x_max"
        using True up by (subst RowPathSearch_loop.simps) simp
      have below: "\<forall>x. lo \<le> x \<and> x < ?p + 1 \<longrightarrow> a x \<le> b (coord_y c - 1)"
      proof (intro allI impI)
        fix x assume x: "lo \<le> x \<and> x < ?p + 1"
        have "lo \<le> x \<and> x \<le> ?p \<and> ?p < hi \<and> a ?p \<le> b (coord_y c - 1)"
          using x p less.prems(4) up by simp
        with less.prems(1) show "a x \<le> b (coord_y c - 1)" by blast
      qed
      have m: "nat (x_max - (?p + 1)) < nat (x_max - x_min)" using p by simp
      have "?p + 1 \<le> RowPathSearch_loop a b c (?p + 1) x_max \<and>
         RowPathSearch_loop a b c (?p + 1) x_max \<le> x_max \<and>
         (\<forall>x. lo \<le> x \<and> x < RowPathSearch_loop a b c (?p + 1) x_max \<longrightarrow> a x \<le> b (coord_y c - 1)) \<and>
         (\<forall>x. RowPathSearch_loop a b c (?p + 1) x_max \<le> x \<and> x < hi \<longrightarrow> \<not> a x \<le> b (coord_y c - 1))"
      proof (rule less.hyps [OF m less.prems(1) _ _ less.prems(4) below less.prems(6)])
        show "lo \<le> ?p + 1" using p less.prems(2) by simp
        show "?p + 1 \<le> x_max" using p by simp
      qed
      then show ?thesis unfolding eq using p by simp
    next
      case down: False
      have eq: "RowPathSearch_loop a b c x_min x_max = RowPathSearch_loop a b c x_min ?p"
        using True down by (subst RowPathSearch_loop.simps) simp
      have above: "\<forall>x. ?p \<le> x \<and> x < hi \<longrightarrow> \<not> a x \<le> b (coord_y c - 1)"
      proof (intro allI impI notI)
        fix x assume x: "?p \<le> x \<and> x < hi" and ax: "a x \<le> b (coord_y c - 1)"
        have "lo \<le> ?p \<and> ?p \<le> x \<and> x < hi \<and> a x \<le> b (coord_y c - 1)"
          using x p less.prems(2) ax by simp
        with less.prems(1) have "a ?p \<le> b (coord_y c - 1)" by blast
        with down show False by simp
      qed
      have m: "nat (?p - x_min) < nat (x_max - x_min)" using p True by simp
      have "x_min \<le> RowPathSearch_loop a b c x_min ?p \<and>
         RowPathSearch_loop a b c x_min ?p \<le> ?p \<and>
         (\<forall>x. lo \<le> x \<and> x < RowPathSearch_loop a b c x_min ?p \<longrightarrow> a x \<le> b (coord_y c - 1)) \<and>
         (\<forall>x. RowPathSearch_loop a b c x_min ?p \<le> x \<and> x < hi \<longrightarrow> \<not> a x \<le> b (coord_y c - 1))"
      proof (rule less.hyps [OF m less.prems(1) less.prems(2) _ _ less.prems(5) above])
        show "x_min \<le> ?p" using p by simp
        show "?p \<le> hi" using p less.prems(4) by simp
      qed
      then show ?thesis unfolding eq using p by simp
    qed
  qed
qed

lemma RowPathSearch_csr:
  fixes x0 y :: int
  assumes "csr_invariants A"
  defines "x \<equiv> coord_x (RowPathSearch (row_end_offsets_of A) (CountingInputIterator 0)
                            (num_rows A) (Int2 x0 y))"
  shows "0 \<le> x" and "x \<le> num_rows A"
    and "\<forall>r. 0 \<le> r \<and> r < x \<longrightarrow> row_end_offsets_of A r < y"
    and "\<forall>r. x \<le> r \<and> r < num_rows A \<longrightarrow> y \<le> row_end_offsets_of A r"
proof -
  let ?a = "row_end_offsets_of A" and ?b = "CountingInputIterator 0" and ?c = "Int2 x0 y"
  let ?r = "RowPathSearch_loop ?a ?b ?c 0 (num_rows A)"
  have nr: "0 \<le> num_rows A" using assms(1) by (simp add: csr_invariants_def)
  have P: "?a r \<le> ?b (coord_y ?c - 1) \<longleftrightarrow> ?a r < y" for r
    by (auto simp: CountingInputIterator_def)
  have anti: "\<forall>r r'. 0 \<le> r \<and> r \<le> r' \<and> r' < num_rows A \<and> ?a r' \<le> ?b (coord_y ?c - 1)
                 \<longrightarrow> ?a r \<le> ?b (coord_y ?c - 1)"
  proof (intro allI impI)
    fix r r' assume h: "0 \<le> r \<and> r \<le> r' \<and> r' < num_rows A \<and> ?a r' \<le> ?b (coord_y ?c - 1)"
    then have "?a r \<le> ?a r'" by (intro row_end_offsets_of_mono [OF assms(1)]) simp_all
    with h show "?a r \<le> ?b (coord_y ?c - 1)" unfolding P by simp
  qed
  have spec: "0 \<le> ?r \<and> ?r \<le> num_rows A \<and>
      (\<forall>r. 0 \<le> r \<and> r < ?r \<longrightarrow> ?a r \<le> ?b (coord_y ?c - 1)) \<and>
      (\<forall>r. ?r \<le> r \<and> r < num_rows A \<longrightarrow> \<not> ?a r \<le> ?b (coord_y ?c - 1))"
    by (rule RowPathSearch_loop_spec [where lo = 0 and hi = "num_rows A" and a = ?a and b = ?b
          and c = ?c and x_min = 0 and x_max = "num_rows A", OF anti order_refl nr order_refl])
       auto
  have x: "x = ?r" using spec by (simp add: x_def RowPathSearch_def)
  show "0 \<le> x" and "x \<le> num_rows A" unfolding x using spec by blast+
  show "\<forall>r. 0 \<le> r \<and> r < x \<longrightarrow> ?a r < y" unfolding x using spec P by blast
  show "\<forall>r. x \<le> r \<and> r < num_rows A \<longrightarrow> y \<le> ?a r"
  proof (intro allI impI)
    fix r assume "x \<le> r \<and> r < num_rows A"
    then have "\<not> ?a r < y" using spec unfolding x P by blast
    then show "y \<le> ?a r" by simp
  qed
qed

lemma nzsplit_last_thread_ends_before_num_rows:
  assumes "csr_invariants A" and "0 < num_nonzeros A" and "1 \<le> num_threads"
  shows "coord_x (nzsplit_thread_coord_end num_threads A (row_end_offsets_of A) (num_threads - 1))
           < num_rows A"
proof -
  let ?x = "coord_x (nzsplit_thread_coord_end num_threads A (row_end_offsets_of A) (num_threads - 1))"
  let ?ipt = "nzsplit_items_per_thread num_threads A"
  have nz: "0 \<le> num_nonzeros A" using assms(2) by simp
  have ipt: "0 \<le> ?ipt" and cover: "num_nonzeros A \<le> ?ipt * num_threads"
    unfolding nzsplit_items_per_thread_def using ceil_share [OF nz assms(3)] by simp_all
  have "?ipt * (num_threads - 1) + ?ipt = ?ipt * num_threads" by (simp add: algebra_simps)
  then have "num_nonzeros A \<le> min (?ipt * (num_threads - 1)) (num_nonzeros A) + ?ipt"
    using cover ipt by (simp add: min_def)
  then have y: "nzsplit_end_y num_threads A (num_threads - 1) = num_nonzeros A"
    by (simp add: nzsplit_end_y_def nzsplit_start_y_def)
  have nr: "0 < num_rows A"
  proof (rule ccontr)
    assume "\<not> 0 < num_rows A"
    then have "nat (num_rows A) = 0" by simp
    then have "num_nonzeros A = 0" using assms(1) by (simp add: csr_invariants_def)
    with assms(2) show False by simp
  qed
  have last: "row_end_offsets_of A (num_rows A - 1) = num_nonzeros A"
  proof -
    have "Suc (nat (num_rows A - 1)) = nat (num_rows A)" using nr by simp
    then show ?thesis using nr assms(1)
      by (simp add: row_end_offsets_of_nth csr_invariants_def)
  qed
  note R = RowPathSearch_csr [OF assms(1), of 0 "num_nonzeros A"]
  have x: "?x = coord_x (RowPathSearch (row_end_offsets_of A) (CountingInputIterator 0)
                            (num_rows A) (Int2 0 (num_nonzeros A)))"
    by (simp add: nzsplit_thread_coord_end_def y)
  show ?thesis
  proof (rule ccontr)
    assume "\<not> ?x < num_rows A"
    then have "num_rows A - 1 < ?x" by simp
    moreover have "0 \<le> num_rows A - 1" using nr by simp
    ultimately have "row_end_offsets_of A (num_rows A - 1) < num_nonzeros A"
      using R(3) unfolding x by blast
    with last show False by simp
  qed
qed

text \<open>
  Claim C2 says that in both kernels the last thread ends at row \<open>num_rows\<close>. The
  nonzero-split kernel does not: \<^verbatim>\<open>RowPathSearch\<close> compares with \<open>b[y - 1]\<close>, so for
  \<open>y = num_nonzeros\<close> it stops at the first row whose end offset reaches
  \<open>num_nonzeros\<close>, the last row that has a nonzero. On the 1 by 1 matrix with one
  thread the end coordinate is \<open>(0, 1)\<close>, not \<open>(1, 1)\<close>; the thread writes no row,
  its carry-out \<open>(0, [6])\<close> is the whole product, and the kernel returns the output
  buffer as it received it. By lemma \<open>nzsplit_last_thread_ends_before_num_rows\<close>
  the end coordinate misses \<open>num_rows\<close> on every matrix with a nonzero.
\<close>

theorem nonzero_split_last_thread_ends_early:
  "csr_invariants csr_1x1 \<and> 0 < num_nonzeros csr_1x1 \<and> num_rows csr_1x1 = 1 \<and>
   nzsplit_thread_coord_end 1 csr_1x1 (row_end_offsets_of csr_1x1) (1 - 1) = Int2 0 1 \<and>
   thread_work (row_end_offsets_of csr_1x1) (ptr (column_indices csr_1x1)) (ptr (values' csr_1x1))
     (filled 3) 1
     (nzsplit_thread_coord 1 csr_1x1 (row_end_offsets_of csr_1x1) (1 - 1))
     (nzsplit_thread_coord_end 1 csr_1x1 (row_end_offsets_of csr_1x1) (1 - 1)) Y = (Y, 0, [6]) \<and>
   OmpNonzeroSplitCsrmm os_thread 1 csr_1x1 (row_end_offsets_of csr_1x1)
     (ptr (column_indices csr_1x1)) (ptr (values' csr_1x1)) (filled 3) Y 1 (filled 3) = Inr Y"
  by (simp add: eval_simps csr_1x1_def csr_invariants_def filled_def)


text \<open>
  Claim C1 says that the three kernels agree with \<^verbatim>\<open>SpmvGold\<close> within \<open>10\<^sup>-\<^sup>6\<close>. On
  the 1 by 1 matrix \<open>[2]\<close> with \<open>X = 3\<close> and one thread the reference (alpha 1, beta 0)
  and the merge-path kernel give 6; the nonzero-split kernel leaves the output
  buffer, here filled with 0, as it was.
\<close>

theorem nonzero_split_differs_from_SpmvGold:
  "csr_invariants csr_1x1 \<and>
   OmpNonzeroSplitCsrmm os_thread 1 csr_1x1 (row_end_offsets_of csr_1x1)
     (ptr (column_indices csr_1x1)) (ptr (values' csr_1x1)) (filled 3) (filled 0) 1 (filled 3)
     = Inr (filled 0) \<and>
   SpmvGold csr_1x1 (filled 3) (filled 1) (filled 0) 1 0 0 = 6 \<and>
   OmpMergeCsrmm os_thread 1 csr_1x1 (row_end_offsets_of csr_1x1) (ptr (column_indices csr_1x1))
     (ptr (values' csr_1x1)) (filled 3) (filled 0) 1 (filled 3) = Inr ((filled 0)(0 := 6)) \<and>
   \<bar>filled 0 0 - SpmvGold csr_1x1 (filled 3) (filled 1) (filled 0) 1 0 0\<bar> > (1 / 1000000 :: real)"
  by (simp add: eval_simps csr_1x1_def csr_invariants_def filled_def)

section \<open>The reference kernel\<close>

lemma sum_int_head:
  fixes f :: "int \<Rightarrow> 'a::comm_monoid_add"
  assumes "lo < hi"
  shows "(\<Sum>k = lo..<hi. f k) = f lo + (\<Sum>k = lo + 1..<hi. f k)"
proof -
  have "{lo..<hi} = insert lo {lo + 1..<hi}" using assms by auto
  then show ?thesis by simp
qed

lemma SpmvGold_row_sum:
  fixes a :: "'a::semiring_0 CsrMatrix"
  shows "SpmvGold_row a vector_x alpha row offset partial =
     partial + alpha * (\<Sum>k = offset..<ptr (row_offsets a) (row + 1).
                          ptr (values' a) k * vector_x (ptr (column_indices a) k))"
proof (induction a vector_x alpha row offset partial rule: SpmvGold_row.induct)
  case (1 a vector_x alpha row offset partial)
  let ?e = "ptr (row_offsets a) (row + 1)"
  let ?f = "\<lambda>k. ptr (values' a) k * vector_x (ptr (column_indices a) k)"
  show ?case
  proof (cases "offset < ?e")
    case True
    have "SpmvGold_row a vector_x alpha row offset partial
        = SpmvGold_row a vector_x alpha row (offset + 1)
            (partial + alpha * ptr (values' a) offset * vector_x (ptr (column_indices a) offset))"
      using True by (subst SpmvGold_row.simps) simp
    also have "\<dots> = partial + alpha * ptr (values' a) offset * vector_x (ptr (column_indices a) offset)
                    + alpha * (\<Sum>k = offset + 1..<?e. ?f k)"
      by (rule "1.IH" [OF True])
    also have "\<dots> = partial + alpha * (?f offset + (\<Sum>k = offset + 1..<?e. ?f k))"
      by (simp add: distrib_left mult.assoc add.assoc)
    also have "?f offset + (\<Sum>k = offset + 1..<?e. ?f k) = (\<Sum>k = offset..<?e. ?f k)"
      by (rule sum_int_head [OF True, symmetric])
    finally show ?thesis .
  next
    case False
    then show ?thesis by (subst SpmvGold_row.simps) simp
  qed
qed

lemma SpmvGold_rows_closed:
  "SpmvGold_rows a vector_x vector_y_in alpha beta row vector_y_out r =
     (if row \<le> r \<and> r < num_rows a
      then SpmvGold_row a vector_x alpha r (ptr (row_offsets a) r) (beta * vector_y_in r)
      else vector_y_out r)"
proof (induction a vector_x vector_y_in alpha beta row vector_y_out rule: SpmvGold_rows.induct)
  case (1 a vector_x vector_y_in alpha beta row vector_y_out)
  show ?case
  proof (cases "row < num_rows a")
    case True
    let ?Y = "vector_y_out(row := SpmvGold_row a vector_x alpha row (ptr (row_offsets a) row)
                                    (beta * vector_y_in row))"
    have "SpmvGold_rows a vector_x vector_y_in alpha beta row vector_y_out r
        = SpmvGold_rows a vector_x vector_y_in alpha beta (row + 1) ?Y r"
      using True by (subst SpmvGold_rows.simps) simp
    also have "\<dots> = (if row + 1 \<le> r \<and> r < num_rows a
      then SpmvGold_row a vector_x alpha r (ptr (row_offsets a) r) (beta * vector_y_in r)
      else ?Y r)"
      by (rule "1.IH" [OF True])
    finally show ?thesis using True by auto
  next
    case False
    then show ?thesis by (subst SpmvGold_rows.simps) auto
  qed
qed

text \<open>
  Claim C7. For every matrix, \<open>X\<close>, \<open>Y_in\<close>, \<open>alpha\<close> and \<open>beta\<close>, \<^verbatim>\<open>SpmvGold\<close> leaves in
  \<open>Y_out[r]\<close>, for each row \<open>0 \<le> r < num_rows\<close>, the value
  \<open>beta * Y_in[r] + alpha * (\<Sum>k. values[k] * X[column_indices[k]])\<close> with \<open>k\<close> from
  \<open>row_offsets[r]\<close> up to \<open>row_offsets[r + 1]\<close>, and leaves every other cell of the
  one output vector as it was. The statement is about exact arithmetic (a
  semiring): the code adds \<open>alpha * values[k] * X[...]\<close> term by term, which equals
  the factored sum by distributivity.
\<close>

theorem SpmvGold_computes_rows:
  fixes a :: "'a::semiring_0 CsrMatrix"
  shows "SpmvGold a vector_x vector_y_in vector_y_out alpha beta r =
     (if 0 \<le> r \<and> r < num_rows a
      then beta * vector_y_in r +
           alpha * (\<Sum>k = ptr (row_offsets a) r..<ptr (row_offsets a) (r + 1).
                      ptr (values' a) k * vector_x (ptr (column_indices a) k))
      else vector_y_out r)"
  by (simp add: SpmvGold_def SpmvGold_rows_closed SpmvGold_row_sum)

section \<open>The loops of one thread\<close>

lemma write_and_reset_fold:
  "n \<le> length rt \<Longrightarrow>
   fold (\<lambda>i (rt, Y). (rt[i := 0], Y(ind + int i := rt ! i))) [0..<n] (rt, Y) =
     (replicate n 0 @ drop n rt,
      \<lambda>j. if ind \<le> j \<and> j < ind + int n then rt ! nat (j - ind) else Y j)"
proof (induction n)
  case 0
  have "Y = (\<lambda>j. if ind \<le> j \<and> j < ind + int 0 then rt ! nat (j - ind) else Y j)"
    by (rule ext) auto
  then show ?case by simp
next
  case (Suc n)
  then have n: "n < length rt" by simp
  have rd: "(replicate n 0 @ drop n rt) ! n = rt ! n" using n by (simp add: nth_append)
  have "drop n rt = rt ! n # drop (Suc n) rt" using n by (simp add: Cons_nth_drop_Suc)
  then have upd: "(replicate n 0 @ drop n rt)[n := 0] = replicate (Suc n) 0 @ drop (Suc n) rt"
    by (simp add: list_update_append replicate_app_Cons_same)
  have fn: "(\<lambda>j. if ind \<le> j \<and> j < ind + int n then rt ! nat (j - ind) else Y j)(ind + int n := rt ! n)
      = (\<lambda>j. if ind \<le> j \<and> j < ind + int (Suc n) then rt ! nat (j - ind) else Y j)"
    by (rule ext) auto
  have ih: "fold (\<lambda>i (rt, Y). (rt[i := 0], Y(ind + int i := rt ! i))) [0..<n] (rt, Y) =
     (replicate n 0 @ drop n rt,
      \<lambda>j. if ind \<le> j \<and> j < ind + int n then rt ! nat (j - ind) else Y j)"
    by (rule Suc.IH) (use n in simp)
  show ?case
    unfolding upt_Suc_append [OF le0] fold_append comp_def ih
    by (simp only: fold.simps id_apply comp_def prod.case rd upd fn)
qed


lemma write_and_reset_closed:
  "length rt = nat num_vectors \<Longrightarrow>
   write_and_reset ind num_vectors rt Y =
     (replicate (nat num_vectors) 0,
      \<lambda>j. if ind \<le> j \<and> j < ind + num_vectors then rt ! nat (j - ind) else Y j)"
proof -
  assume len: "length rt = nat num_vectors"
  have "(\<lambda>j. if ind \<le> j \<and> j < ind + int (nat num_vectors) then rt ! nat (j - ind) else Y j)
      = (\<lambda>j. if ind \<le> j \<and> j < ind + num_vectors then rt ! nat (j - ind) else Y j)"
    by (rule ext) auto
  then show ?thesis
    unfolding write_and_reset_def using write_and_reset_fold [of "nat num_vectors" rt ind Y] len
    by simp
qed

lemma accumulate_fold:
  "n \<le> length rt \<Longrightarrow>
   fold (\<lambda>i rt. rt[i := rt ! i + g i]) [0..<n] rt = map (\<lambda>i. rt ! i + g i) [0..<n] @ drop n rt"
proof (induction n)
  case 0
  then show ?case by simp
next
  case (Suc n)
  then have n: "n < length rt" by simp
  have d: "drop n rt = rt ! n # drop (Suc n) rt" using n by (simp add: Cons_nth_drop_Suc)
  have "(map (\<lambda>i. rt ! i + g i) [0..<n] @ drop n rt) ! n = rt ! n"
    using n by (simp add: nth_append)
  moreover have "(map (\<lambda>i. rt ! i + g i) [0..<n] @ drop n rt)[n := rt ! n + g n]
      = map (\<lambda>i. rt ! i + g i) [0..<Suc n] @ drop (Suc n) rt"
    using d by (simp add: list_update_append)
  ultimately show ?case using Suc n by simp
qed

lemma accumulate_closed:
  "length rt = nat num_vectors \<Longrightarrow>
   accumulate col_ind vals X num_vectors y rt =
     map (\<lambda>i. rt ! i + vals y * X (col_ind y * num_vectors + int i)) [0..<nat num_vectors]"
  unfolding accumulate_def
  using accumulate_fold [of "nat num_vectors" rt "\<lambda>i. vals y * X (col_ind y * num_vectors + int i)"]
  by simp

lemma length_accumulate:
  "length rt = nat num_vectors \<Longrightarrow> length (accumulate col_ind vals X num_vectors y rt) = nat num_vectors"
  by (simp add: accumulate_closed)

lemma add_carry_fold:
  "fold (\<lambda>i Y. Y(ind + int i := Y (ind + int i) + carry ! i)) [0..<n] Y =
     (\<lambda>j. if ind \<le> j \<and> j < ind + int n then Y j + carry ! nat (j - ind) else Y j)"
proof (induction n)
  case 0
  show ?case by (rule ext) auto
next
  case (Suc n)
  show ?case unfolding upt_Suc_append [OF le0] fold_append comp_def Suc.IH
    by (rule ext) auto
qed

lemma add_carry_closed:
  "add_carry ind num_vectors carry Y =
     (\<lambda>j. if ind \<le> j \<and> j < ind + num_vectors then Y j + carry ! nat (j - ind) else Y j)"
  unfolding add_carry_def add_carry_fold by (rule ext) auto


lemma consume_nonzeros_length:
  "length rt = nat num_vectors \<Longrightarrow>
   length (snd (consume_nonzeros col_ind vals X num_vectors bound y rt)) = nat num_vectors"
proof (induction col_ind vals X num_vectors bound y rt rule: consume_nonzeros.induct)
  case (1 col_ind vals X num_vectors bound y rt)
  show ?case
  proof (cases "y < bound")
    case True
    have "length (accumulate col_ind vals X num_vectors y rt) = nat num_vectors"
      using "1.prems" by (rule length_accumulate)
    from "1.IH" [OF True this] True show ?thesis
      by (subst consume_nonzeros.simps) simp
  next
    case False
    then show ?thesis using "1.prems" by (subst consume_nonzeros.simps) simp
  qed
qed

lemma consume_nonzeros_fst:
  "fst (consume_nonzeros col_ind vals X num_vectors bound y rt) = max y bound"
proof (induction col_ind vals X num_vectors bound y rt rule: consume_nonzeros.induct)
  case (1 col_ind vals X num_vectors bound y rt)
  show ?case
  proof (cases "y < bound")
    case True
    from "1.IH" [OF True] True show ?thesis
      by (subst consume_nonzeros.simps) simp
  next
    case False
    then show ?thesis by (subst consume_nonzeros.simps) simp
  qed
qed

lemma consume_rows_step:
  assumes "length rt = nat num_vectors" and "x < x_end"
  shows "consume_rows row_end_offsets col_ind vals X num_vectors x_end x y rt Y =
         consume_rows row_end_offsets col_ind vals X num_vectors x_end (x + 1)
           (max y (row_end_offsets x)) (replicate (nat num_vectors) 0)
           (\<lambda>j. if x * num_vectors \<le> j \<and> j < x * num_vectors + num_vectors
                then snd (consume_nonzeros col_ind vals X num_vectors (row_end_offsets x) y rt)
                       ! nat (j - x * num_vectors)
                else Y j)"
proof -
  obtain y' rt' where c: "consume_nonzeros col_ind vals X num_vectors (row_end_offsets x) y rt = (y', rt')"
    by (cases "consume_nonzeros col_ind vals X num_vectors (row_end_offsets x) y rt")
  have y': "y' = max y (row_end_offsets x)"
    using consume_nonzeros_fst [of col_ind vals X num_vectors "row_end_offsets x" y rt] c by simp
  have "length rt' = nat num_vectors"
    using consume_nonzeros_length [OF assms(1), of col_ind vals X "row_end_offsets x" y] c by simp
  note w = write_and_reset_closed [OF this, of "x * num_vectors" Y]
  show ?thesis
    using assms(2) by (subst consume_rows.simps) (simp add: c w y' cong: if_cong)
qed

lemma consume_rows_stop:
  "\<not> x < x_end \<Longrightarrow>
   consume_rows row_end_offsets col_ind vals X num_vectors x_end x y rt Y = (x, y, rt, Y)"
  by (subst consume_rows.simps) simp

lemma consume_rows_state:
  "length rt = nat num_vectors \<Longrightarrow>
   \<exists>y' Y'. consume_rows row_end_offsets col_ind vals X num_vectors x_end x y rt Y
              = (max x x_end, y', (if x < x_end then replicate (nat num_vectors) 0 else rt), Y') \<and>
           (\<forall>Y0. \<exists>Y0'. consume_rows row_end_offsets col_ind vals X num_vectors x_end x y rt Y0
              = (max x x_end, y', (if x < x_end then replicate (nat num_vectors) 0 else rt), Y0'))"
proof (induction row_end_offsets col_ind vals X num_vectors x_end x y rt Y
       rule: consume_rows.induct)
  case (1 row_end_offsets col_ind vals X num_vectors x_end x y rt Y)
  show ?case
  proof (cases "x < x_end")
    case False
    then show ?thesis by (simp add: consume_rows_stop)
  next
    case True
    let ?z = "replicate (nat num_vectors) 0 :: 'a list"
    have lz: "length ?z = nat num_vectors" by simp
    obtain y' rt' where c: "consume_nonzeros col_ind vals X num_vectors (row_end_offsets x) y rt = (y', rt')"
      by (cases "consume_nonzeros col_ind vals X num_vectors (row_end_offsets x) y rt")
    let ?V = "\<lambda>Y. (\<lambda>j. if x * num_vectors \<le> j \<and> j < x * num_vectors + num_vectors
                then rt' ! nat (j - x * num_vectors) else Y j)"
    have lrt': "length rt' = nat num_vectors"
      using consume_nonzeros_length [OF "1.prems", of col_ind vals X "row_end_offsets x" y] c by simp
    have w: "write_and_reset (x * num_vectors) num_vectors rt' Y0 = (?z, ?V Y0)" for Y0
      by (rule write_and_reset_closed [OF lrt'])
    have step: "consume_rows row_end_offsets col_ind vals X num_vectors x_end x y rt Y0
        = consume_rows row_end_offsets col_ind vals X num_vectors x_end (x + 1) y' ?z (?V Y0)" for Y0
      using True by (subst consume_rows.simps) (simp add: c w)
    from "1.IH" [OF True c [symmetric] w [symmetric] lz]
    obtain y2 Y2 where
      r: "consume_rows row_end_offsets col_ind vals X num_vectors x_end (x + 1) y' ?z (?V Y)
            = (max (x + 1) x_end, y2, (if x + 1 < x_end then ?z else ?z), Y2)"
      and a: "\<forall>Y0. \<exists>Y0'. consume_rows row_end_offsets col_ind vals X num_vectors x_end (x + 1) y' ?z Y0
            = (max (x + 1) x_end, y2, (if x + 1 < x_end then ?z else ?z), Y0')"
      by blast
    have m: "max (x + 1) x_end = max x x_end" using True by simp
    have "consume_rows row_end_offsets col_ind vals X num_vectors x_end x y rt Y
            = (max x x_end, y2, ?z, Y2)"
      unfolding step using r m by simp
    moreover have "\<exists>Y0'. consume_rows row_end_offsets col_ind vals X num_vectors x_end x y rt Y0
            = (max x x_end, y2, ?z, Y0')" for Y0
      unfolding step using a [rule_format, of "?V Y0"] m by simp
    ultimately show ?thesis using True by auto
  qed
qed

lemma thread_work_carry:
  "\<exists>Y'. thread_work row_end_offsets col_ind vals X num_vectors thread_coord thread_coord_end Y =
     (Y', snd (thread_work row_end_offsets col_ind vals X num_vectors thread_coord thread_coord_end
                (filled 0)))"
proof -
  let ?z = "replicate (nat num_vectors) 0 :: 'a list"
  have lz: "length ?z = nat num_vectors" by simp
  from consume_rows_state [OF lz, of row_end_offsets col_ind vals X "coord_x thread_coord_end"
      "coord_x thread_coord" "coord_y thread_coord" Y]
  obtain y' Y' where
    r: "consume_rows row_end_offsets col_ind vals X num_vectors (coord_x thread_coord_end)
          (coord_x thread_coord) (coord_y thread_coord) ?z Y
          = (max (coord_x thread_coord) (coord_x thread_coord_end), y', ?z, Y')"
    and a: "\<forall>Y0. \<exists>Y0'. consume_rows row_end_offsets col_ind vals X num_vectors (coord_x thread_coord_end)
          (coord_x thread_coord) (coord_y thread_coord) ?z Y0
          = (max (coord_x thread_coord) (coord_x thread_coord_end), y', ?z, Y0')"
    by (auto split: if_splits)
  from a obtain Y0' where
    r0: "consume_rows row_end_offsets col_ind vals X num_vectors (coord_x thread_coord_end)
          (coord_x thread_coord) (coord_y thread_coord) ?z (filled 0)
          = (max (coord_x thread_coord) (coord_x thread_coord_end), y', ?z, Y0')"
    by blast
  show ?thesis unfolding thread_work_def r r0 by (simp split: prod.splits)
qed

section \<open>The parallel loop and the fix-up\<close>

lemma thread_work_row:
  "fst (snd (thread_work row_end_offsets col_ind vals X num_vectors thread_coord thread_coord_end Y))
     = coord_x thread_coord_end"
  by (simp add: thread_work_def split: prod.splits)

lemma thread_work_result:
  "\<exists>Y'. thread_work row_end_offsets col_ind vals X num_vectors (fst (coords tid)) (snd (coords tid)) Y
     = (Y', coord_x (snd (coords tid)),
        carry_total row_end_offsets col_ind vals X num_vectors coords tid)"
proof -
  from thread_work_carry [of row_end_offsets col_ind vals X num_vectors "fst (coords tid)"
      "snd (coords tid)" Y]
  obtain Y' where
    w: "thread_work row_end_offsets col_ind vals X num_vectors (fst (coords tid)) (snd (coords tid)) Y
        = (Y', snd (thread_work row_end_offsets col_ind vals X num_vectors (fst (coords tid))
                     (snd (coords tid)) (filled 0)))"
    by blast
  have "fst (snd (thread_work row_end_offsets col_ind vals X num_vectors (fst (coords tid))
                     (snd (coords tid)) (filled 0))) = coord_x (snd (coords tid))"
    by (rule thread_work_row)
  then have "snd (thread_work row_end_offsets col_ind vals X num_vectors (fst (coords tid))
                     (snd (coords tid)) (filled 0))
      = (coord_x (snd (coords tid)),
         carry_total row_end_offsets col_ind vals X num_vectors coords tid)"
    unfolding carry_total_def by (simp add: prod_eq_iff)
  with w show ?thesis by simp
qed

lemma run_threads_ok:
  assumes "0 \<le> tid" and "num_threads \<le> 256"
  shows "\<exists>Ypar rco' vco' fr'.
           run_threads os_thread coords row_end_offsets col_ind vals X num_vectors num_threads tid
             Y rco vco fr = Inr (Ypar, rco', vco', fr') \<and>
           (\<forall>t. rco' t = (if tid \<le> t \<and> t < num_threads then Some (coord_x (snd (coords t)))
                          else rco t)) \<and>
           (\<forall>t. vco' t = (if tid \<le> t \<and> t < num_threads then Some (os_thread t) else vco t)) \<and>
           (\<forall>t. tid \<le> t \<and> t < num_threads \<longrightarrow>
              (\<exists>t'. t \<le> t' \<and> t' < num_threads \<and> os_thread t' = os_thread t \<and>
                    fr' (os_thread t) =
                      Some (carry_total row_end_offsets col_ind vals X num_vectors coords t'))) \<and>
           (\<forall>p. (\<forall>t. tid \<le> t \<and> t < num_threads \<longrightarrow> os_thread t \<noteq> p) \<longrightarrow> fr' p = fr p)"
  using assms
proof (induction "nat (num_threads - tid)" arbitrary: tid Y rco vco fr)
  case 0
  then have "\<not> tid < num_threads" by simp
  then show ?case by (subst run_threads.simps) auto
next
  case (Suc n)
  then have lt: "tid < num_threads" by simp
  let ?ct = "carry_total row_end_offsets col_ind vals X num_vectors coords"
  from thread_work_result [of row_end_offsets col_ind vals X num_vectors coords tid Y]
  obtain Y' where w: "thread_work row_end_offsets col_ind vals X num_vectors (fst (coords tid))
        (snd (coords tid)) Y
      = (Y', coord_x (snd (coords tid)), ?ct tid)"
    by blast
  let ?rco = "rco(tid \<mapsto> coord_x (snd (coords tid)))"
  let ?vco = "vco(tid \<mapsto> os_thread tid)"
  let ?fr = "fr(os_thread tid \<mapsto> ?ct tid)"
  have inb: "0 \<le> tid \<and> tid < 256" using Suc.prems lt by simp
  have step: "run_threads os_thread coords row_end_offsets col_ind vals X num_vectors num_threads tid
        Y rco vco fr
      = run_threads os_thread coords row_end_offsets col_ind vals X num_vectors num_threads (tid + 1)
          Y' ?rco ?vco ?fr"
    using lt inb by (subst run_threads.simps) (simp add: w carry_write_def)
  have "n = nat (num_threads - (tid + 1))" using Suc.hyps(2) by simp
  moreover have "0 \<le> tid + 1" using Suc.prems by simp
  ultimately obtain Ypar rco' vco' fr' where
    r: "run_threads os_thread coords row_end_offsets col_ind vals X num_vectors num_threads (tid + 1)
          Y' ?rco ?vco ?fr = Inr (Ypar, rco', vco', fr')"
    and a: "\<forall>t. rco' t = (if tid + 1 \<le> t \<and> t < num_threads then Some (coord_x (snd (coords t)))
                          else ?rco t)"
    and b: "\<forall>t. vco' t = (if tid + 1 \<le> t \<and> t < num_threads then Some (os_thread t) else ?vco t)"
    and c: "\<forall>t. tid + 1 \<le> t \<and> t < num_threads \<longrightarrow>
              (\<exists>t'. t \<le> t' \<and> t' < num_threads \<and> os_thread t' = os_thread t \<and>
                    fr' (os_thread t) = Some (?ct t'))"
    and d: "\<forall>p. (\<forall>t. tid + 1 \<le> t \<and> t < num_threads \<longrightarrow> os_thread t \<noteq> p) \<longrightarrow> fr' p = ?fr p"
    using Suc.hyps(1) [of "tid + 1" Y' ?rco ?vco ?fr] Suc.prems(2) by blast
  have A: "rco' t = (if tid \<le> t \<and> t < num_threads then Some (coord_x (snd (coords t))) else rco t)"
    for t
    using a [rule_format, of t] lt by (cases "t = tid") auto
  have B: "vco' t = (if tid \<le> t \<and> t < num_threads then Some (os_thread t) else vco t)" for t
    using b [rule_format, of t] lt by (cases "t = tid") auto
  have C: "\<exists>t'. t \<le> t' \<and> t' < num_threads \<and> os_thread t' = os_thread t \<and>
                fr' (os_thread t) = Some (?ct t')"
    if t: "tid \<le> t \<and> t < num_threads" for t
  proof (cases "t = tid")
    case False
    then have "tid + 1 \<le> t \<and> t < num_threads" using t by simp
    with c show ?thesis by blast
  next
    case same: True
    show ?thesis
    proof (cases "\<exists>s. tid + 1 \<le> s \<and> s < num_threads \<and> os_thread s = os_thread tid")
      case True
      then obtain s where s: "tid + 1 \<le> s \<and> s < num_threads" and os: "os_thread s = os_thread tid"
        by blast
      from c s obtain t' where
        t': "s \<le> t' \<and> t' < num_threads \<and> os_thread t' = os_thread s \<and>
             fr' (os_thread s) = Some (?ct t')"
        by blast
      have "t \<le> t' \<and> t' < num_threads \<and> os_thread t' = os_thread t \<and>
            fr' (os_thread t) = Some (?ct t')"
        using t' s os same by simp
      then show ?thesis by blast
    next
      case False
      then have "\<forall>s. tid + 1 \<le> s \<and> s < num_threads \<longrightarrow> os_thread s \<noteq> os_thread tid" by blast
      with d have "fr' (os_thread tid) = ?fr (os_thread tid)" by blast
      then have "t \<le> tid \<and> tid < num_threads \<and> os_thread tid = os_thread t \<and>
            fr' (os_thread t) = Some (?ct tid)"
        using same lt by simp
      then show ?thesis by blast
    qed
  qed
  have D: "fr' p = fr p" if p: "\<forall>t. tid \<le> t \<and> t < num_threads \<longrightarrow> os_thread t \<noteq> p" for p
  proof -
    have "\<forall>t. tid + 1 \<le> t \<and> t < num_threads \<longrightarrow> os_thread t \<noteq> p" using p by simp
    with d have "fr' p = ?fr p" by blast
    moreover have "os_thread tid \<noteq> p" using p lt by simp
    ultimately show ?thesis by simp
  qed
  have "run_threads os_thread coords row_end_offsets col_ind vals X num_vectors num_threads tid
          Y rco vco fr = Inr (Ypar, rco', vco', fr')"
    unfolding step r ..
  with A B C D show ?case by blast
qed

lemma run_threads_overflow:
  assumes "0 \<le> tid" and "tid \<le> 256" and "256 < num_threads"
  shows "run_threads os_thread coords row_end_offsets col_ind vals X num_vectors num_threads tid
           Y rco vco fr = Inl CarryOutOfBounds"
  using assms
proof (induction "nat (256 - tid)" arbitrary: tid Y rco vco fr)
  case 0
  then have t: "tid = 256" by simp
  obtain Y' r c where "thread_work row_end_offsets col_ind vals X num_vectors (fst (coords tid))
        (snd (coords tid)) Y = (Y', r, c)"
    by (cases "thread_work row_end_offsets col_ind vals X num_vectors (fst (coords tid))
        (snd (coords tid)) Y") auto
  then show ?case using t "0.prems"(3)
    by (subst run_threads.simps) (simp add: carry_write_def)
next
  case (Suc n)
  then have lt: "tid < 256" by simp
  obtain Y' r c where w: "thread_work row_end_offsets col_ind vals X num_vectors (fst (coords tid))
        (snd (coords tid)) Y = (Y', r, c)"
    by (cases "thread_work row_end_offsets col_ind vals X num_vectors (fst (coords tid))
        (snd (coords tid)) Y") auto
  have step: "run_threads os_thread coords row_end_offsets col_ind vals X num_vectors num_threads tid
        Y rco vco fr
      = run_threads os_thread coords row_end_offsets col_ind vals X num_vectors num_threads (tid + 1)
          Y' (rco(tid \<mapsto> r)) (vco(tid \<mapsto> os_thread tid)) (fr(os_thread tid \<mapsto> c))"
    using lt Suc.prems by (subst run_threads.simps) (simp add: w carry_write_def)
  have "n = nat (256 - (tid + 1))" using Suc.hyps(2) by simp
  then show ?case unfolding step using Suc.hyps(1) [of "tid + 1"] Suc.prems lt by simp
qed

lemma carry_out_fixup_returns:
  assumes "0 \<le> tid" and "num_threads \<le> 256"
    and "\<forall>t. tid \<le> t \<and> t < num_threads - 1 \<longrightarrow>
           rco t \<noteq> None \<and> (\<exists>p. vco t = Some p \<and> fr p \<noteq> None)"
  shows "\<exists>Y'. carry_out_fixup num_threads a_num_rows num_vectors rco vco fr tid Y = Inr Y'"
  using assms
proof (induction "nat (num_threads - 1 - tid)" arbitrary: tid Y)
  case 0
  then have "\<not> tid < num_threads - 1" by simp
  then show ?case by (subst carry_out_fixup.simps) simp
next
  case (Suc n)
  then have lt: "tid < num_threads - 1" by simp
  then obtain row p carry where rd: "rco tid = Some row" "vco tid = Some p" "fr p = Some carry"
    using Suc.prems(3) by auto
  have inb: "0 \<le> tid \<and> tid < 256" using Suc.prems lt by simp
  have n: "n = nat (num_threads - 1 - (tid + 1))" using Suc.hyps(2) by simp
  have nx: "0 \<le> tid + 1" using Suc.prems by simp
  have rest: "\<forall>t. tid + 1 \<le> t \<and> t < num_threads - 1 \<longrightarrow>
                rco t \<noteq> None \<and> (\<exists>p. vco t = Some p \<and> fr p \<noteq> None)"
    using Suc.prems(3) by auto
  show ?case
    using Suc.hyps(1) [OF n nx Suc.prems(2) rest] lt inb rd
    by (subst carry_out_fixup.simps) (simp add: carry_read_def)
qed

lemma carry_out_fixup_closed:
  fixes Y :: "'a::semiring_0 store"
  assumes "0 \<le> tid" and "num_threads \<le> 256"
    and "\<forall>t. tid \<le> t \<and> t < num_threads - 1 \<longrightarrow>
           rco t = Some (row t) \<and> vco t = Some (adr t) \<and> fr (adr t) = Some (tot t)"
  shows "carry_out_fixup num_threads a_num_rows num_vectors rco vco fr tid Y =
     Inr (\<lambda>j. Y j + (\<Sum>t \<in> {t \<in> {tid..<num_threads - 1}. row t < a_num_rows \<and>
                              row t * num_vectors \<le> j \<and> j < row t * num_vectors + num_vectors}.
                       tot t ! nat (j - row t * num_vectors)))"
  using assms
proof (induction "nat (num_threads - 1 - tid)" arbitrary: tid Y)
  case 0
  then have stop: "\<not> tid < num_threads - 1" by simp
  then have "{t \<in> {tid..<num_threads - 1}. row t < a_num_rows \<and>
               row t * num_vectors \<le> j \<and> j < row t * num_vectors + num_vectors} = {}" for j
    by auto
  then show ?case using stop by (subst carry_out_fixup.simps) simp
next
  case (Suc n)
  then have lt: "tid < num_threads - 1" by simp
  have rd: "rco tid = Some (row tid)" "vco tid = Some (adr tid)" "fr (adr tid) = Some (tot tid)"
    using Suc.prems(3) lt by auto
  have inb: "0 \<le> tid \<and> tid < 256" using Suc.prems lt by simp
  have n: "n = nat (num_threads - 1 - (tid + 1))" using Suc.hyps(2) by simp
  have nx: "0 \<le> tid + 1" using Suc.prems by simp
  have rest: "\<forall>t. tid + 1 \<le> t \<and> t < num_threads - 1 \<longrightarrow>
                rco t = Some (row t) \<and> vco t = Some (adr t) \<and> fr (adr t) = Some (tot t)"
    using Suc.prems(3) by auto
  let ?P = "\<lambda>j t. row t < a_num_rows \<and> row t * num_vectors \<le> j \<and> j < row t * num_vectors + num_vectors"
  let ?S = "\<lambda>lo j. {t \<in> {lo..<num_threads - 1}. ?P j t}"
  let ?f = "\<lambda>j t. tot t ! nat (j - row t * num_vectors)"
  note IH = Suc.hyps(1) [OF n nx Suc.prems(2) rest]
  have interval: "{tid..<num_threads - 1} = insert tid {tid + 1..<num_threads - 1}"
    using lt by auto
  have split: "?S tid j = (if ?P j tid then insert tid (?S (tid + 1) j) else ?S (tid + 1) j)" for j
    unfolding interval by (cases "?P j tid") auto
  have fin: "finite (?S (tid + 1) j)" for j
    by (rule finite_subset [of _ "{tid + 1..<num_threads - 1}"]) auto
  have notin: "tid \<notin> ?S (tid + 1) j" for j
    by auto
  show ?case
  proof (cases "row tid < a_num_rows")
    case True
    let ?Y1 = "add_carry (row tid * num_vectors) num_vectors (tot tid) Y"
    have step: "carry_out_fixup num_threads a_num_rows num_vectors rco vco fr tid Y
        = carry_out_fixup num_threads a_num_rows num_vectors rco vco fr (tid + 1) ?Y1"
      using lt inb rd True by (subst carry_out_fixup.simps) (simp add: carry_read_def)
    have "?Y1 j + (\<Sum>t \<in> ?S (tid + 1) j. ?f j t) = Y j + (\<Sum>t \<in> ?S tid j. ?f j t)" for j
    proof (cases "?P j tid")
      case P: True
      then have "?Y1 j = Y j + ?f j tid" by (simp add: add_carry_closed)
      moreover have "(\<Sum>t \<in> ?S tid j. ?f j t) = ?f j tid + (\<Sum>t \<in> ?S (tid + 1) j. ?f j t)"
        unfolding split [of j] using P sum.insert [OF fin [of j] notin [of j], of "?f j"] by simp
      ultimately show ?thesis by (simp add: add.assoc)
    next
      case nP: False
      then have "?Y1 j = Y j" using True by (auto simp: add_carry_closed)
      moreover have "?S tid j = ?S (tid + 1) j"
        by (rule trans [OF split [of j] if_not_P [OF nP]])
      ultimately show ?thesis by simp
    qed
    then show ?thesis unfolding step IH [of ?Y1] by simp
  next
    case False
    have step: "carry_out_fixup num_threads a_num_rows num_vectors rco vco fr tid Y
        = carry_out_fixup num_threads a_num_rows num_vectors rco vco fr (tid + 1) Y"
      using lt inb rd False by (subst carry_out_fixup.simps) (simp add: carry_read_def)
    have "?S tid j = ?S (tid + 1) j" for j unfolding split [of j] using False by simp
    then show ?thesis unfolding step IH [of Y] by simp
  qed
qed

section \<open>Bounds of the carry-out arrays\<close>

lemma load_balanced_csrmm_returns:
  assumes "num_threads \<le> 256"
  shows "\<exists>Y'. load_balanced_csrmm os_thread coords num_threads a_num_rows row_end_offsets col_ind
                 vals Y num_vectors X = Inr Y'"
proof -
  have z: "(0::int) \<le> 0" by simp
  from run_threads_ok [OF z assms, of os_thread coords row_end_offsets col_ind vals X num_vectors Y
      Map.empty Map.empty Map.empty]
  obtain Ypar rco vco fr where
    r: "run_threads os_thread coords row_end_offsets col_ind vals X num_vectors num_threads 0 Y
          Map.empty Map.empty Map.empty = Inr (Ypar, rco, vco, fr)"
    and a: "\<forall>t. rco t = (if 0 \<le> t \<and> t < num_threads then Some (coord_x (snd (coords t))) else None)"
    and b: "\<forall>t. vco t = (if 0 \<le> t \<and> t < num_threads then Some (os_thread t) else None)"
    and c: "\<forall>t. 0 \<le> t \<and> t < num_threads \<longrightarrow>
              (\<exists>t'. t \<le> t' \<and> t' < num_threads \<and> os_thread t' = os_thread t \<and>
                    fr (os_thread t) =
                      Some (carry_total row_end_offsets col_ind vals X num_vectors coords t'))"
    by blast
  have "rco t \<noteq> None \<and> (\<exists>p. vco t = Some p \<and> fr p \<noteq> None)"
    if t: "0 \<le> t \<and> t < num_threads - 1" for t
  proof -
    have t': "0 \<le> t \<and> t < num_threads" using t by simp
    with c have "fr (os_thread t) \<noteq> None" by fastforce
    then show ?thesis using a b t' by simp
  qed
  then have "\<forall>t. 0 \<le> t \<and> t < num_threads - 1 \<longrightarrow>
               rco t \<noteq> None \<and> (\<exists>p. vco t = Some p \<and> fr p \<noteq> None)"
    by blast
  from carry_out_fixup_returns [OF z assms this, of a_num_rows num_vectors Ypar]
  show ?thesis unfolding load_balanced_csrmm_def r by simp
qed

lemma load_balanced_csrmm_overflow:
  assumes "256 < num_threads"
  shows "load_balanced_csrmm os_thread coords num_threads a_num_rows row_end_offsets col_ind vals Y
           num_vectors X = Inl CarryOutOfBounds"
  unfolding load_balanced_csrmm_def
  using run_threads_overflow [OF _ _ assms, of 0 os_thread coords row_end_offsets col_ind vals X
      num_vectors Y Map.empty Map.empty Map.empty] by simp

text \<open>
  Claim C9. The two carry-out arrays have 256 slots and are indexed by the thread
  id. If \<open>num_threads \<le> 256\<close>, both kernels run to the end without an access outside
  the arrays (and without reading a slot that was never written): the result is a
  store, not \<open>CarryOutOfBounds\<close>. This holds however the team runs the iterations.
\<close>

theorem carry_out_arrays_within_bounds:
  assumes "num_threads \<le> 256"
  shows "(\<exists>Y'. OmpMergeCsrmm os_thread num_threads a row_end_offsets col_ind vals vector_x
                  vector_y_out num_vectors vector_x_row_major = Inr Y') \<and>
         (\<exists>Y'. OmpNonzeroSplitCsrmm os_thread num_threads a row_end_offsets col_ind vals vector_x
                  vector_y_out num_vectors vector_x_row_major = Inr Y')"
  unfolding OmpMergeCsrmm_def OmpNonzeroSplitCsrmm_def
  using load_balanced_csrmm_returns [OF assms] by blast

theorem carry_out_arrays_within_bounds_witness:
  "(\<exists>Y'. OmpMergeCsrmm one_thread_each 2 csr_1x1 (row_end_offsets_of csr_1x1)
          (ptr (column_indices csr_1x1)) (ptr (values' csr_1x1)) (filled 3) (filled 0) 1 (filled 3)
          = Inr Y') \<and>
   (\<exists>Y'. OmpNonzeroSplitCsrmm one_thread_each 2 csr_1x1 (row_end_offsets_of csr_1x1)
          (ptr (column_indices csr_1x1)) (ptr (values' csr_1x1)) (filled 3) (filled 0) 1 (filled 3)
          = Inr Y')"
proof -
  have "(2::int) \<le> 256" by simp
  from carry_out_arrays_within_bounds [OF this] show ?thesis by blast
qed


text \<open>The bound is sharp: with more than 256 threads thread 256 writes past the end.\<close>

lemma carry_out_arrays_overflow:
  assumes "256 < num_threads"
  shows "OmpMergeCsrmm os_thread num_threads a row_end_offsets col_ind vals vector_x vector_y_out
           num_vectors vector_x_row_major = Inl CarryOutOfBounds \<and>
         OmpNonzeroSplitCsrmm os_thread num_threads a row_end_offsets col_ind vals vector_x
           vector_y_out num_vectors vector_x_row_major = Inl CarryOutOfBounds"
  unfolding OmpMergeCsrmm_def OmpNonzeroSplitCsrmm_def
  using load_balanced_csrmm_overflow [OF assms] by blast

section \<open>The carry-out protocol\<close>

text \<open>
  When every iteration runs on an OS thread of its own, the array an address
  refers to still holds the total of the thread that recorded it, and the fix-up
  adds to each cell the totals of exactly the threads \<open>0 .. num_threads - 2\<close> whose
  recorded row is below \<open>num_rows\<close> and holds that cell, each once.
\<close>

lemma load_balanced_csrmm_closed:
  fixes Y :: "'a::semiring_0 store"
  assumes "num_threads \<le> 256" and "inj_on os_thread {0..<num_threads}"
  shows "\<exists>Ypar rco vco fr.
           run_threads os_thread coords row_end_offsets col_ind vals X num_vectors num_threads 0 Y
             Map.empty Map.empty Map.empty = Inr (Ypar, rco, vco, fr) \<and>
           (\<forall>tid. 0 \<le> tid \<and> tid < num_threads \<longrightarrow>
              rco tid = Some (coord_x (snd (coords tid))) \<and>
              vco tid = Some (os_thread tid) \<and>
              fr (os_thread tid)
                = Some (carry_total row_end_offsets col_ind vals X num_vectors coords tid)) \<and>
           load_balanced_csrmm os_thread coords num_threads a_num_rows row_end_offsets col_ind vals Y
             num_vectors X =
             Inr (\<lambda>j. Ypar j + carried_into num_threads a_num_rows num_vectors
                                  (\<lambda>tid. coord_x (snd (coords tid)))
                                  (carry_total row_end_offsets col_ind vals X num_vectors coords) j)"
proof -
  let ?ct = "carry_total row_end_offsets col_ind vals X num_vectors coords"
  have z: "(0::int) \<le> 0" by simp
  from run_threads_ok [OF z assms(1), of os_thread coords row_end_offsets col_ind vals X num_vectors
      Y Map.empty Map.empty Map.empty]
  obtain Ypar rco vco fr where
    r: "run_threads os_thread coords row_end_offsets col_ind vals X num_vectors num_threads 0 Y
          Map.empty Map.empty Map.empty = Inr (Ypar, rco, vco, fr)"
    and a: "\<forall>t. rco t = (if 0 \<le> t \<and> t < num_threads then Some (coord_x (snd (coords t))) else None)"
    and b: "\<forall>t. vco t = (if 0 \<le> t \<and> t < num_threads then Some (os_thread t) else None)"
    and c: "\<forall>t. 0 \<le> t \<and> t < num_threads \<longrightarrow>
              (\<exists>t'. t \<le> t' \<and> t' < num_threads \<and> os_thread t' = os_thread t \<and>
                    fr (os_thread t) = Some (?ct t'))"
    by blast
  have own: "fr (os_thread t) = Some (?ct t)" if t: "0 \<le> t \<and> t < num_threads" for t
  proof -
    from c t obtain t' where
      t': "t \<le> t' \<and> t' < num_threads \<and> os_thread t' = os_thread t"
      and f: "fr (os_thread t) = Some (?ct t')"
      by blast
    have "t' \<in> {0..<num_threads}" "t \<in> {0..<num_threads}" using t t' by simp_all
    with assms(2) t' have "t' = t" by (auto dest: inj_onD)
    with f show ?thesis by simp
  qed
  have rec: "\<forall>tid. 0 \<le> tid \<and> tid < num_threads \<longrightarrow>
              rco tid = Some (coord_x (snd (coords tid))) \<and>
              vco tid = Some (os_thread tid) \<and> fr (os_thread tid) = Some (?ct tid)"
    using a b own by simp
  then have "\<forall>t. 0 \<le> t \<and> t < num_threads - 1 \<longrightarrow>
              rco t = Some (coord_x (snd (coords t))) \<and>
              vco t = Some (os_thread t) \<and> fr (os_thread t) = Some (?ct t)"
    by simp
  from carry_out_fixup_closed [OF z assms(1) this, of a_num_rows num_vectors Ypar]
  have "load_balanced_csrmm os_thread coords num_threads a_num_rows row_end_offsets col_ind vals Y
             num_vectors X =
             Inr (\<lambda>j. Ypar j + carried_into num_threads a_num_rows num_vectors
                                  (\<lambda>tid. coord_x (snd (coords tid))) ?ct j)"
    unfolding load_balanced_csrmm_def r carried_into_def by simp
  with r rec show ?thesis by blast
qed

lemma carry_total_restarts:
  "carry_total row_end_offsets col_ind vals X num_vectors coords tid =
     snd (consume_nonzeros col_ind vals X num_vectors (coord_y (snd (coords tid)))
            (fst (snd (consume_rows row_end_offsets col_ind vals X num_vectors
                         (coord_x (snd (coords tid))) (coord_x (fst (coords tid)))
                         (coord_y (fst (coords tid))) (replicate (nat num_vectors) 0) (filled 0))))
            (replicate (nat num_vectors) 0))"
proof -
  let ?z = "replicate (nat num_vectors) 0 :: 'a list"
  have lz: "length ?z = nat num_vectors" by simp
  from consume_rows_state [OF lz, of row_end_offsets col_ind vals X "coord_x (snd (coords tid))"
      "coord_x (fst (coords tid))" "coord_y (fst (coords tid))" "filled 0"]
  obtain y' Y' where
    r: "consume_rows row_end_offsets col_ind vals X num_vectors (coord_x (snd (coords tid)))
          (coord_x (fst (coords tid))) (coord_y (fst (coords tid))) ?z (filled 0)
          = (max (coord_x (fst (coords tid))) (coord_x (snd (coords tid))), y', ?z, Y')"
    by (auto split: if_splits)
  show ?thesis unfolding carry_total_def thread_work_def r by (simp split: prod.splits)
qed

lemma consume_nonzeros_sum:
  fixes rt :: "'a::semiring_0 list"
  assumes "length rt = nat num_vectors" and "i < nat num_vectors"
  shows "snd (consume_nonzeros col_ind vals X num_vectors bound y rt) ! i =
           rt ! i + (\<Sum>k = y..<bound. vals k * X (col_ind k * num_vectors + int i))"
  using assms(1)
proof (induction "nat (bound - y)" arbitrary: y rt)
  case 0
  then have "\<not> y < bound" by simp
  then show ?case by (subst consume_nonzeros.simps) simp
next
  case (Suc n)
  then have lt: "y < bound" by simp
  let ?rt = "accumulate col_ind vals X num_vectors y rt"
  have n: "n = nat (bound - (y + 1))" using Suc.hyps(2) by simp
  have l: "length ?rt = nat num_vectors" using Suc.prems by (rule length_accumulate)
  have a: "?rt ! i = rt ! i + vals y * X (col_ind y * num_vectors + int i)"
    using assms(2) by (simp add: accumulate_closed [OF Suc.prems])
  have "snd (consume_nonzeros col_ind vals X num_vectors bound y rt) ! i
      = snd (consume_nonzeros col_ind vals X num_vectors bound (y + 1) ?rt) ! i"
    using lt by (subst consume_nonzeros.simps) simp
  also have "\<dots> = ?rt ! i + (\<Sum>k = y + 1..<bound. vals k * X (col_ind k * num_vectors + int i))"
    by (rule Suc.hyps(1) [OF n l])
  also have "\<dots> = rt ! i + (vals y * X (col_ind y * num_vectors + int i) +
                 (\<Sum>k = y + 1..<bound. vals k * X (col_ind k * num_vectors + int i)))"
    unfolding a by (simp add: add.assoc)
  also have "vals y * X (col_ind y * num_vectors + int i) +
                 (\<Sum>k = y + 1..<bound. vals k * X (col_ind k * num_vectors + int i))
      = (\<Sum>k = y..<bound. vals k * X (col_ind k * num_vectors + int i))"
    by (rule sum_int_head [OF lt, symmetric])
  finally show ?case .
qed

lemma carry_total_sum:
  fixes vals :: "int \<Rightarrow> 'a::semiring_0"
  assumes "i < nat num_vectors"
  shows "length (carry_total row_end_offsets col_ind vals X num_vectors coords tid) = nat num_vectors"
    and "carry_total row_end_offsets col_ind vals X num_vectors coords tid ! i =
      (\<Sum>k = fst (snd (consume_rows row_end_offsets col_ind vals X num_vectors
                         (coord_x (snd (coords tid))) (coord_x (fst (coords tid)))
                         (coord_y (fst (coords tid))) (replicate (nat num_vectors) 0) (filled 0)))
            ..<coord_y (snd (coords tid)).
         vals k * X (col_ind k * num_vectors + int i))"
proof -
  have l: "length (replicate (nat num_vectors) (0::'a)) = nat num_vectors" by simp
  show "length (carry_total row_end_offsets col_ind vals X num_vectors coords tid) = nat num_vectors"
    unfolding carry_total_restarts by (rule consume_nonzeros_length [OF l])
  show "carry_total row_end_offsets col_ind vals X num_vectors coords tid ! i =
      (\<Sum>k = fst (snd (consume_rows row_end_offsets col_ind vals X num_vectors
                         (coord_x (snd (coords tid))) (coord_x (fst (coords tid)))
                         (coord_y (fst (coords tid))) (replicate (nat num_vectors) 0) (filled 0)))
            ..<coord_y (snd (coords tid)).
         vals k * X (col_ind k * num_vectors + int i))"
    unfolding carry_total_restarts consume_nonzeros_sum [OF l assms] using assms by simp
qed

text \<open>
  Claim C3 says that each thread records its end row and its running total, and
  that the fix-up adds, for every thread \<open>0 .. num_threads - 2\<close> whose recorded row
  is below \<open>num_rows\<close>, that thread's recorded total to that row once. The kernels
  record the row by value but the total by the address of the loop-local array
  \<^verbatim>\<open>running_total\<close>, and read the array after the loop. On the matrix of one row
  with the values 1, 2, 3, 4, with \<open>X\<close> all 1 and three iterations run by a team of
  two, iterations 0 and 1 end inside row 0 with the totals 3 and 7 and record the
  same address; when the fix-up runs, the array there holds 7. The merge-path
  kernel returns \<open>0 + 7 + 7 = 14\<close> in row 0 where the two recorded totals add up to
  10, the product; the nonzero-split kernel, with the same text, returns
  \<open>5 + 7 + 7 = 19\<close> where the old content 5 plus the two totals is 15.
\<close>

theorem fixup_reads_shared_running_total:
  "run_threads team_of_two (merge_coords 3 csr_1x4 (row_end_offsets_of csr_1x4))
     (row_end_offsets_of csr_1x4) (ptr (column_indices csr_1x4)) (ptr (values' csr_1x4))
     (filled 1) 1 3 0 (filled 5) Map.empty Map.empty Map.empty
     = Inr ((filled 5)(0 := 0), [0 \<mapsto> 0, 1 \<mapsto> 0, 2 \<mapsto> 1], [0 \<mapsto> 0, 1 \<mapsto> 0, 2 \<mapsto> 1],
            [0 \<mapsto> [7], 1 \<mapsto> [0]]) \<and>
   carry_total (row_end_offsets_of csr_1x4) (ptr (column_indices csr_1x4)) (ptr (values' csr_1x4))
     (filled 1) 1 (merge_coords 3 csr_1x4 (row_end_offsets_of csr_1x4)) 0 = [3] \<and>
   carry_total (row_end_offsets_of csr_1x4) (ptr (column_indices csr_1x4)) (ptr (values' csr_1x4))
     (filled 1) 1 (merge_coords 3 csr_1x4 (row_end_offsets_of csr_1x4)) 1 = [7] \<and>
   OmpMergeCsrmm team_of_two 3 csr_1x4 (row_end_offsets_of csr_1x4) (ptr (column_indices csr_1x4))
     (ptr (values' csr_1x4)) (filled 1) (filled 5) 1 (filled 1) = Inr ((filled 5)(0 := 14)) \<and>
   OmpMergeCsrmm one_thread_each 3 csr_1x4 (row_end_offsets_of csr_1x4)
     (ptr (column_indices csr_1x4)) (ptr (values' csr_1x4)) (filled 1) (filled 5) 1 (filled 1)
     = Inr ((filled 5)(0 := 10)) \<and>
   OmpNonzeroSplitCsrmm team_of_two 3 csr_1x4 (row_end_offsets_of csr_1x4)
     (ptr (column_indices csr_1x4)) (ptr (values' csr_1x4)) (filled 1) (filled 5) 1 (filled 1)
     = Inr ((filled 5)(0 := 19)) \<and>
   OmpNonzeroSplitCsrmm one_thread_each 3 csr_1x4 (row_end_offsets_of csr_1x4)
     (ptr (column_indices csr_1x4)) (ptr (values' csr_1x4)) (filled 1) (filled 5) 1 (filled 1)
     = Inr ((filled 5)(0 := 15))"
  by (simp add: eval_simps csr_1x4_def filled_def carry_total_def)

section \<open>The whole rows of a thread\<close>

text \<open>
  What a thread does to the output in the parallel loop: it overwrites the cells of
  the rows \<open>thread_coord.x \<le> r < thread_coord_end.x\<close> with values that do not depend
  on what the cells held, and touches no other cell.
\<close>

lemma consume_rows_writes:
  assumes "length rt = nat num_vectors" and "0 \<le> num_vectors"
  shows "snd (snd (snd (consume_rows row_end_offsets col_ind vals X num_vectors x_end x y rt Y))) j =
     (if x * num_vectors \<le> j \<and> j < x_end * num_vectors
      then snd (snd (snd (consume_rows row_end_offsets col_ind vals X num_vectors x_end x y rt
                            (filled 0)))) j
      else Y j)"
  using assms(1)
proof (induction "nat (x_end - x)" arbitrary: x y rt Y)
  case 0
  then have stop: "\<not> x < x_end" by simp
  then have "x_end * num_vectors \<le> x * num_vectors"
    using assms(2) by (intro mult_right_mono) simp_all
  then have "\<not> (x * num_vectors \<le> j \<and> j < x_end * num_vectors)" by auto
  then show ?case using stop by (auto simp: consume_rows_stop)
next
  case (Suc n)
  then have lt: "x < x_end" by simp
  let ?z = "replicate (nat num_vectors) 0 :: 'a list"
  let ?rt = "snd (consume_nonzeros col_ind vals X num_vectors (row_end_offsets x) y rt)"
  let ?V = "\<lambda>Y. (\<lambda>j. if x * num_vectors \<le> j \<and> j < x * num_vectors + num_vectors
                then ?rt ! nat (j - x * num_vectors) else Y j)"
  let ?rest = "\<lambda>Y. snd (snd (snd (consume_rows row_end_offsets col_ind vals X num_vectors x_end
                  (x + 1) (max y (row_end_offsets x)) ?z Y)))"
  have n: "n = nat (x_end - (x + 1))" using Suc.hyps(2) by simp
  have lz: "length ?z = nat num_vectors" by simp
  note step = consume_rows_step [OF Suc.prems lt, of row_end_offsets col_ind vals X y]
  note IH = Suc.hyps(1) [OF n lz, of "max y (row_end_offsets x)"]
  have next_row: "(x + 1) * num_vectors = x * num_vectors + num_vectors"
    by (simp add: algebra_simps)
  have "(x + 1) * num_vectors \<le> x_end * num_vectors"
    using lt assms(2) by (intro mult_right_mono) simp_all
  then have le: "x * num_vectors + num_vectors \<le> x_end * num_vectors"
    unfolding next_row .
  have L: "snd (snd (snd (consume_rows row_end_offsets col_ind vals X num_vectors x_end x y rt Y0))) j
      = ?rest (?V Y0) j" for Y0
    unfolding step [of Y0] ..
  show ?case
  proof (cases "(x + 1) * num_vectors \<le> j \<and> j < x_end * num_vectors")
    case True
    have C: "x * num_vectors \<le> j \<and> j < x_end * num_vectors"
      using True assms(2) unfolding next_row by simp
    have "?rest (?V Y0) j = ?rest (filled 0) j" for Y0
      unfolding IH [of "?V Y0"] by (rule if_P [OF True])
    then have "?rest (?V Y) j = ?rest (?V (filled 0)) j" by simp
    then show ?thesis unfolding L by (simp only: if_P [OF C])
  next
    case False
    have r: "?rest Y0 j = Y0 j" for Y0
      unfolding IH [of Y0] by (rule if_not_P [OF False])
    show ?thesis
    proof (cases "x * num_vectors \<le> j \<and> j < x * num_vectors + num_vectors")
      case True
      have C: "x * num_vectors \<le> j \<and> j < x_end * num_vectors" using True le by simp
      have "?V Y0 j = ?rt ! nat (j - x * num_vectors)" for Y0
        by (rule if_P [OF True])
      then have "?V Y j = ?V (filled 0) j" by simp
      then show ?thesis unfolding L r by (simp only: if_P [OF C])
    next
      case out: False
      have nC: "\<not> (x * num_vectors \<le> j \<and> j < x_end * num_vectors)"
        using False out unfolding next_row by auto
      have "?V Y j = Y j" by (rule if_not_P [OF out])
      then show ?thesis unfolding L r by (simp only: if_not_P [OF nC])
    qed
  qed
qed

lemma thread_work_writes:
  assumes "0 \<le> num_vectors"
  shows "fst (thread_work row_end_offsets col_ind vals X num_vectors thread_coord thread_coord_end Y) j =
     (if coord_x thread_coord * num_vectors \<le> j \<and> j < coord_x thread_coord_end * num_vectors
      then fst (thread_work row_end_offsets col_ind vals X num_vectors thread_coord thread_coord_end
                  (filled 0)) j
      else Y j)"
proof -
  have f: "fst (thread_work row_end_offsets col_ind vals X num_vectors thread_coord thread_coord_end Y0)
      = snd (snd (snd (consume_rows row_end_offsets col_ind vals X num_vectors
             (coord_x thread_coord_end) (coord_x thread_coord) (coord_y thread_coord)
             (replicate (nat num_vectors) 0) Y0)))" for Y0
    by (simp add: thread_work_def split: prod.splits)
  have "length (replicate (nat num_vectors) (0::'a)) = nat num_vectors" by simp
  from consume_rows_writes [OF this assms] show ?thesis unfolding f .
qed
lemma chain_exists:
  fixes f :: "int \<Rightarrow> int"
  assumes "0 \<le> k" and "f 0 \<le> r" and "r < f k"
  shows "\<exists>t. 0 \<le> t \<and> t < k \<and> f t \<le> r \<and> r < f (t + 1)"
  using assms
proof (induction k rule: int_ge_induct)
  case base
  then show ?case by simp
next
  case (step i)
  show ?case
  proof (cases "r < f i")
    case True
    with step obtain t where "0 \<le> t \<and> t < i \<and> f t \<le> r \<and> r < f (t + 1)" by blast
    then show ?thesis by (intro exI [of _ t]) simp
  next
    case False
    with step show ?thesis by (intro exI [of _ i]) simp
  qed
qed

lemma chain_unique:
  fixes f :: "int \<Rightarrow> int"
  assumes mono: "\<forall>s t. 0 \<le> s \<and> s \<le> t \<and> t \<le> k \<longrightarrow> f s \<le> f t"
    and "0 \<le> k" and "f 0 \<le> r" and "r < f k"
  shows "\<exists>!t. 0 \<le> t \<and> t < k \<and> f t \<le> r \<and> r < f (t + 1)"
proof -
  from chain_exists [OF assms(2-4)]
  obtain t where t: "0 \<le> t \<and> t < k \<and> f t \<le> r \<and> r < f (t + 1)" by blast
  have "t' = t" if t': "0 \<le> t' \<and> t' < k \<and> f t' \<le> r \<and> r < f (t' + 1)" for t'
  proof (rule ccontr)
    assume "t' \<noteq> t"
    then consider "t' < t" | "t < t'" by linarith
    then show False
    proof cases
      case 1
      then have "0 \<le> t' + 1 \<and> t' + 1 \<le> t \<and> t \<le> k" using t t' by simp
      with mono have "f (t' + 1) \<le> f t" by blast
      with t t' show False by simp
    next
      case 2
      then have "0 \<le> t + 1 \<and> t + 1 \<le> t' \<and> t' \<le> k" using t t' by simp
      with mono have "f (t + 1) \<le> f t'" by blast
      with t t' show False by simp
    qed
  qed
  with t show ?thesis by blast
qed

lemma MergePathSearch_csr:
  assumes "csr_invariants A" and "0 \<le> d" and "d \<le> num_rows A + num_nonzeros A"
  defines "c \<equiv> MergePathSearch d (row_end_offsets_of A) (CountingInputIterator 0)
                  (num_rows A) (num_nonzeros A)"
  shows "coord_y c = d - coord_x c"
    and "max (d - num_nonzeros A) 0 \<le> coord_x c" and "coord_x c \<le> min d (num_rows A)"
    and "\<forall>x. 0 \<le> x \<and> x < coord_x c \<longrightarrow> row_end_offsets_of A x + x < d"
    and "\<forall>x. coord_x c \<le> x \<and> x < num_rows A \<longrightarrow> d \<le> row_end_offsets_of A x + x"
proof -
  have nr: "0 \<le> num_rows A" and nz: "0 \<le> num_nonzeros A"
    using assms(1) by (simp_all add: csr_invariants_def)
  have mono: "\<forall>i j. 0 \<le> i \<and> i \<le> j \<and> j < num_rows A \<longrightarrow>
                 row_end_offsets_of A i \<le> row_end_offsets_of A j"
    using row_end_offsets_of_mono [OF assms(1)] by blast
  have range: "\<forall>i. 0 \<le> i \<and> i < num_rows A \<longrightarrow>
                 0 \<le> row_end_offsets_of A i \<and> row_end_offsets_of A i \<le> num_nonzeros A"
    using row_end_offsets_of_range [OF assms(1)] by blast
  note L = MergePathSearch_least [OF nr nz assms(2,3) mono range]
  show "coord_y c = d - coord_x c" unfolding c_def by (rule L(1))
  show "max (d - num_nonzeros A) 0 \<le> coord_x c" unfolding c_def by (rule L(2))
  show "coord_x c \<le> min d (num_rows A)" unfolding c_def by (rule L(3))
  show "\<forall>x. 0 \<le> x \<and> x < coord_x c \<longrightarrow> row_end_offsets_of A x + x < d"
    unfolding c_def by (rule L(4))
  show "\<forall>x. coord_x c \<le> x \<and> x < num_rows A \<longrightarrow> d \<le> row_end_offsets_of A x + x"
    unfolding c_def by (rule L(5))
qed

lemma MergePathSearch_csr_mono:
  assumes "csr_invariants A" and "0 \<le> d" and "d \<le> d'" and "d' \<le> num_rows A + num_nonzeros A"
  shows "coord_x (MergePathSearch d (row_end_offsets_of A) (CountingInputIterator 0)
                    (num_rows A) (num_nonzeros A))
       \<le> coord_x (MergePathSearch d' (row_end_offsets_of A) (CountingInputIterator 0)
                    (num_rows A) (num_nonzeros A))"
    (is "?x \<le> ?x'")
proof (rule ccontr)
  assume "\<not> ?x \<le> ?x'"
  then have lt: "?x' < ?x" by simp
  have d: "d \<le> num_rows A + num_nonzeros A" and d': "0 \<le> d'" using assms by simp_all
  note L = MergePathSearch_csr [OF assms(1,2) d]
  note L' = MergePathSearch_csr [OF assms(1) d' assms(4)]
  have x'0: "0 \<le> ?x'" using L'(2) by simp
  have "?x \<le> num_rows A" using L(3) by simp
  with lt have x'n: "?x' < num_rows A" by simp
  have "row_end_offsets_of A ?x' + ?x' < d" using L(4) x'0 lt by blast
  moreover have "d' \<le> row_end_offsets_of A ?x' + ?x'" using L'(5) x'n by blast
  ultimately show False using assms(3) by simp
qed


lemma merge_end_is_next_start:
  assumes "1 \<le> num_threads" and "0 \<le> num_rows a" and "0 \<le> num_nonzeros a"
  shows "merge_end_diagonal num_threads a tid = merge_start_diagonal num_threads a (tid + 1)"
proof -
  have "0 \<le> num_rows a + num_nonzeros a" using assms by simp
  from ceil_share(1) [OF this assms(1)]
  have "0 \<le> merge_items_per_thread num_threads a"
    by (simp add: merge_items_per_thread_def)
  then show ?thesis
    by (auto simp: merge_end_diagonal_def merge_start_diagonal_def min_def algebra_simps)
qed

lemma merge_start_diagonal_mono:
  assumes "1 \<le> num_threads" and "0 \<le> num_rows a" and "0 \<le> num_nonzeros a" and "s \<le> t"
  shows "merge_start_diagonal num_threads a s \<le> merge_start_diagonal num_threads a t"
proof -
  have "0 \<le> num_rows a + num_nonzeros a" using assms by simp
  from ceil_share(1) [OF this assms(1)]
  have "0 \<le> merge_items_per_thread num_threads a"
    by (simp add: merge_items_per_thread_def)
  then have "merge_items_per_thread num_threads a * s \<le> merge_items_per_thread num_threads a * t"
    using assms(4) by (rule mult_left_mono [rotated])
  then show ?thesis by (simp add: merge_start_diagonal_def min_def)
qed

text \<open>Every row lies in the range of whole rows of exactly one thread.\<close>

lemma merge_row_owner_unique:
  assumes "csr_invariants A" and "1 \<le> num_threads"
  shows "\<forall>r. 0 \<le> r \<and> r < num_rows A \<longrightarrow>
           (\<exists>!tid. 0 \<le> tid \<and> tid < num_threads \<and>
                   coord_x (merge_thread_coord num_threads A (row_end_offsets_of A) tid) \<le> r \<and>
                   r < coord_x (merge_thread_coord_end num_threads A (row_end_offsets_of A) tid))"
proof (intro allI impI)
  fix r assume r: "0 \<le> r \<and> r < num_rows A"
  let ?N = "num_rows A + num_nonzeros A"
  let ?f = "\<lambda>t. coord_x (merge_thread_coord num_threads A (row_end_offsets_of A) t)"
  have nr: "0 \<le> num_rows A" and nz: "0 \<le> num_nonzeros A"
    using assms(1) by (simp_all add: csr_invariants_def)
  have N: "0 \<le> ?N" using nr nz by simp
  have ipt: "0 \<le> merge_items_per_thread num_threads A"
    and cover: "?N \<le> merge_items_per_thread num_threads A * num_threads"
    unfolding merge_items_per_thread_def using ceil_share [OF N assms(2)] by simp_all
  have s0: "merge_start_diagonal num_threads A 0 = 0"
    using N by (simp add: merge_start_diagonal_def)
  have sn: "merge_start_diagonal num_threads A num_threads = ?N"
    using cover by (simp add: merge_start_diagonal_def)
  have sb: "0 \<le> merge_start_diagonal num_threads A t \<and> merge_start_diagonal num_threads A t \<le> ?N"
    if "0 \<le> t" for t
    using ipt N that by (simp add: merge_start_diagonal_def)
  have e: "coord_x (merge_thread_coord_end num_threads A (row_end_offsets_of A) t) = ?f (t + 1)" for t
    unfolding merge_thread_coord_end_def merge_thread_coord_def
      merge_end_is_next_start [OF assms(2) nr nz] ..
  have mono: "\<forall>s t. 0 \<le> s \<and> s \<le> t \<and> t \<le> num_threads \<longrightarrow> ?f s \<le> ?f t"
  proof (intro allI impI)
    fix s t assume st: "0 \<le> s \<and> s \<le> t \<and> t \<le> num_threads"
    have "merge_start_diagonal num_threads A s \<le> merge_start_diagonal num_threads A t"
      using st by (intro merge_start_diagonal_mono [OF assms(2) nr nz]) simp
    moreover have "0 \<le> merge_start_diagonal num_threads A s" using sb [of s] st by simp
    moreover have "merge_start_diagonal num_threads A t \<le> ?N" using sb [of t] st by simp
    ultimately show "?f s \<le> ?f t"
      unfolding merge_thread_coord_def by (intro MergePathSearch_csr_mono [OF assms(1)])
  qed
  have f0: "?f 0 = 0"
    unfolding merge_thread_coord_def s0
    using MergePathSearch_csr(2,3) [OF assms(1), of 0] N nr by simp
  have fn: "?f num_threads = num_rows A"
    unfolding merge_thread_coord_def sn
    using MergePathSearch_csr(2,3) [OF assms(1), of ?N] N nr nz by simp
  have "\<exists>!t. 0 \<le> t \<and> t < num_threads \<and> ?f t \<le> r \<and> r < ?f (t + 1)"
    using r f0 fn assms(2) by (intro chain_unique [OF mono]) simp_all
  then show "\<exists>!tid. 0 \<le> tid \<and> tid < num_threads \<and>
                   coord_x (merge_thread_coord num_threads A (row_end_offsets_of A) tid) \<le> r \<and>
                   r < coord_x (merge_thread_coord_end num_threads A (row_end_offsets_of A) tid)"
    unfolding e .
qed

lemma csr_invariants_csr_1x4: "csr_invariants csr_1x4"
  by (simp add: csr_invariants_def csr_1x4_def)

section \<open>Buffer layouts\<close>

lemma mixed_radix_inj:
  fixes n :: int
  assumes "0 \<le> b" "b < n" "0 \<le> b'" "b' < n" and eq: "a * n + b = a' * n + b'"
  shows "a = a' \<and> b = b'"
proof -
  have "a = a'"
  proof (rule ccontr)
    assume "a \<noteq> a'"
    then consider "a < a'" | "a' < a" by linarith
    then show False
    proof cases
      case 1
      then have "(a + 1) * n \<le> a' * n" using assms by (intro mult_right_mono) simp_all
      then show False using assms by (simp add: algebra_simps)
    next
      case 2
      then have "(a' + 1) * n \<le> a * n" using assms by (intro mult_right_mono) simp_all
      then show False using assms by (simp add: algebra_simps)
    qed
  qed
  with eq show ?thesis by simp
qed

lemma y_index_inj:
  assumes "0 \<le> r" "r < a_num_rows" "0 \<le> r'" "r' < a_num_rows"
    and "0 \<le> i" "i < num_vectors" "0 \<le> i'" "i' < num_vectors"
    and "y_index g a_num_rows num_vectors r i = y_index g a_num_rows num_vectors r' i'"
  shows "r = r' \<and> i = i'"
proof (cases "g_output_row_major g")
  case True
  with assms(9) have "r * num_vectors + i = r' * num_vectors + i'" by (simp add: y_index_def)
  from mixed_radix_inj [OF assms(5-8) this] show ?thesis .
next
  case False
  with assms(9) have "i * a_num_rows + r = i' * a_num_rows + r'" by (simp add: y_index_def)
  from mixed_radix_inj [OF assms(1-4) this] show ?thesis by simp
qed

lemma write_partial_other:
  assumes "\<forall>i. 0 \<le> i \<and> i < num_vectors \<longrightarrow> j \<noteq> y_index g a_num_rows num_vectors row i"
  shows "write_partial g a_num_rows num_vectors row partial Y j = Y j"
proof -
  have "n \<le> nat num_vectors \<Longrightarrow>
        fold (\<lambda>i Y. Y(y_index g a_num_rows num_vectors row (int i) := partial ! i)) [0..<n] Y j = Y j"
    for n
  proof (induction n)
    case 0
    then show ?case by simp
  next
    case (Suc n)
    then have "j \<noteq> y_index g a_num_rows num_vectors row (int n)" using assms by simp
    then show ?case using Suc by simp
  qed
  from this [of "nat num_vectors"] show ?thesis by (simp add: write_partial_def)
qed

lemma write_partial_at:
  assumes "0 \<le> i" and "i < num_vectors"
    and inj: "\<forall>i'. 0 \<le> i' \<and> i' < num_vectors \<and> i' \<noteq> i \<longrightarrow>
                 y_index g a_num_rows num_vectors row i' \<noteq> y_index g a_num_rows num_vectors row i"
  shows "write_partial g a_num_rows num_vectors row partial Y
           (y_index g a_num_rows num_vectors row i) = partial ! nat i"
proof -
  have "n \<le> nat num_vectors \<Longrightarrow> nat i < n \<Longrightarrow>
        fold (\<lambda>k Y. Y(y_index g a_num_rows num_vectors row (int k) := partial ! k)) [0..<n] Y
          (y_index g a_num_rows num_vectors row i) = partial ! nat i"
    for n
  proof (induction n)
    case 0
    then show ?case by simp
  next
    case (Suc n)
    show ?case
    proof (cases "nat i = n")
      case True
      then have "int n = i" using assms(1) by simp
      then show ?thesis using True by simp
    next
      case False
      then have lt: "nat i < n" using Suc.prems by simp
      have "int n \<noteq> i" using False by auto
      then have "y_index g a_num_rows num_vectors row (int n) \<noteq> y_index g a_num_rows num_vectors row i"
        using inj Suc.prems(1) by simp
      then show ?thesis using Suc.IH lt Suc.prems(1) by simp
    qed
  qed
  from this [of "nat num_vectors"] assms show ?thesis by (simp add: write_partial_def)
qed

lemma spmmt_rows_at:
  assumes "0 \<le> r" and "r < num_rows a" and "0 \<le> i" and "i < num_vectors"
  shows "spmmt_rows g a X num_vectors row Y (y_index g (num_rows a) num_vectors r i) =
     (if row \<le> r
      then snd (consume_nonzeros (ptr (column_indices a)) (ptr (values' a)) X num_vectors
                  (ptr (row_offsets a) (r + 1)) (ptr (row_offsets a) r)
                  (replicate (nat num_vectors) 0)) ! nat i
      else Y (y_index g (num_rows a) num_vectors r i))"
proof (induction "nat (num_rows a - row)" arbitrary: row Y)
  case 0
  then have stop: "\<not> row < num_rows a" by simp
  then have "\<not> row \<le> r" using assms(2) by simp
  then show ?case using stop by (subst spmmt_rows.simps) simp
next
  case (Suc n)
  then have lt: "row < num_rows a" by simp
  let ?p = "\<lambda>r. snd (consume_nonzeros (ptr (column_indices a)) (ptr (values' a)) X num_vectors
                  (ptr (row_offsets a) (r + 1)) (ptr (row_offsets a) r)
                  (replicate (nat num_vectors) 0))"
  let ?Y1 = "write_partial g (num_rows a) num_vectors row (?p row) Y"
  let ?j = "y_index g (num_rows a) num_vectors r i"
  have step: "spmmt_rows g a X num_vectors row Y = spmmt_rows g a X num_vectors (row + 1) ?Y1"
    using lt by (subst spmmt_rows.simps) simp
  have n: "n = nat (num_rows a - (row + 1))" using Suc.hyps(2) by simp
  note IH = Suc.hyps(1) [OF n, of ?Y1]
  show ?case
  proof (cases "row + 1 \<le> r")
    case True
    then show ?thesis unfolding step IH by simp
  next
    case False
    show ?thesis
    proof (cases "row = r")
      case True
      have "\<forall>i'. 0 \<le> i' \<and> i' < num_vectors \<and> i' \<noteq> i \<longrightarrow>
                 y_index g (num_rows a) num_vectors r i' \<noteq> ?j"
        using y_index_inj [OF assms(1,2) assms(1,2) _ _ assms(3,4), of _ g] by blast
      from write_partial_at [OF assms(3,4) this, of "?p r" Y]
      show ?thesis unfolding step IH using True by simp
    next
      case ne: False
      then have nle: "\<not> row \<le> r" using False by simp
      show ?thesis
      proof (cases "0 \<le> row")
        case True
        have "\<forall>i'. 0 \<le> i' \<and> i' < num_vectors \<longrightarrow>
                 ?j \<noteq> y_index g (num_rows a) num_vectors row i'"
          using y_index_inj [OF assms(1,2) True lt assms(3,4), of _ g] ne by blast
        from write_partial_other [OF this, of "?p row" Y]
        show ?thesis unfolding step IH using False nle by simp
      next
        case False
        then have "r < row" using nle by simp
        with assms(1) False show ?thesis by simp
      qed
    qed
  qed
qed

text \<open>
  Claim C8, as amended. For a fixed matrix, fixed contents of the row-major \<open>X\<close>
  and fixed \<open>num_vectors\<close>, with \<^verbatim>\<open>g_input_row_major\<close> set, \<^verbatim>\<open>OmpCsrSpmmT\<close> yields for
  every row \<open>r\<close> and vector \<open>i\<close> the same value under both settings of
  \<^verbatim>\<open>g_output_row_major\<close>, read at the place the setting assigns to \<open>(r, i)\<close>,
  whatever the thread count and the earlier content of \<open>Y\<close>. The statement is not
  made for the other two kernels, which have no code for a column-major \<open>Y\<close>, nor
  for column-major input.
\<close>

theorem OmpCsrSpmmT_output_layouts_agree:
  assumes "0 \<le> r" and "r < num_rows a" and "0 \<le> i" and "i < num_vectors"
    and "g_input_row_major g1" and "g_input_row_major g2"
  shows "\<exists>Y1 Y2. OmpCsrSpmmT g1 num_threads1 a vector_x vector_y_out1 num_vectors vector_x_row_major
                     = Inr Y1 \<and>
                 OmpCsrSpmmT g2 num_threads2 a vector_x vector_y_out2 num_vectors vector_x_row_major
                     = Inr Y2 \<and>
                 Y1 (y_index g1 (num_rows a) num_vectors r i)
                   = Y2 (y_index g2 (num_rows a) num_vectors r i)"
proof -
  have "spmmt_rows g1 a vector_x_row_major num_vectors 0 vector_y_out1
          (y_index g1 (num_rows a) num_vectors r i)
      = spmmt_rows g2 a vector_x_row_major num_vectors 0 vector_y_out2
          (y_index g2 (num_rows a) num_vectors r i)"
    unfolding spmmt_rows_at [OF assms(1-4)] using assms(1) by simp
  then show ?thesis using assms(5,6) by (simp add: OmpCsrSpmmT_def)
qed


theorem OmpCsrSpmmT_output_layouts_agree_witness:
  "\<exists>Y1 Y2. OmpCsrSpmmT (layout True True) 1 csr_2x2 (ptr [1, 2, 3, 4]) (filled 0) 2 (ptr [1, 2, 3, 4])
              = Inr Y1 \<and>
           OmpCsrSpmmT (layout True False) 4 csr_2x2 (ptr [1, 2, 3, 4]) (filled 7) 2 (ptr [1, 2, 3, 4])
              = Inr Y2 \<and>
           Y1 (y_index (layout True True) (num_rows csr_2x2) 2 0 1)
             = Y2 (y_index (layout True False) (num_rows csr_2x2) 2 0 1)"
proof -
  have h: "(0::int) \<le> 0" "0 < num_rows csr_2x2" "(0::int) \<le> 1" "(1::int) < 2"
    "g_input_row_major (layout True True)" "g_input_row_major (layout True False)"
    by (simp_all add: csr_2x2_def layout_def)
  from OmpCsrSpmmT_output_layouts_agree [OF h] show ?thesis .
qed


text \<open>
  The claim as stated covers each kernel and all four settings. The merge-path
  kernel never reads the flags and always stores entry \<open>i\<close> of row \<open>r\<close> at
  \<open>r * num_vectors + i\<close>. On the 2 by 2 identity with two vectors and \<open>X = [1,2,3,4]\<close>
  (row-major) the value of row 0, vector 1 is 2; read at the column-major place
  \<open>0 + 1 * 2\<close> the output of the merge-path kernel holds 3, while \<^verbatim>\<open>OmpCsrSpmmT\<close>
  holds 2 at the place of either layout.
\<close>

theorem merge_kernel_ignores_output_layout_counterexample:
  "cells (OmpMergeCsrmm one_thread_each 1 csr_2x2 (row_end_offsets_of csr_2x2)
            (ptr (column_indices csr_2x2)) (ptr (values' csr_2x2)) (ptr [1, 2, 3, 4]) (filled 0) 2
            (ptr [1, 2, 3, 4]))
     [y_index (layout True True) (num_rows csr_2x2) 2 0 1,
      y_index (layout True False) (num_rows csr_2x2) 2 0 1] = Inr [2, 3] \<and>
   cells (OmpCsrSpmmT (layout True False) 1 csr_2x2 (ptr [1, 2, 3, 4]) (filled 0) 2 (ptr [1, 2, 3, 4]))
     [y_index (layout True False) (num_rows csr_2x2) 2 0 1] = Inr [2] \<and>
   cells (OmpCsrSpmmT (layout True True) 1 csr_2x2 (ptr [1, 2, 3, 4]) (filled 0) 2 (ptr [1, 2, 3, 4]))
     [y_index (layout True True) (num_rows csr_2x2) 2 0 1] = Inr [2]"
  by (simp add: eval_simps csr_2x2_def filled_def numeral_2_eq_2)


text \<open>
  With column-major input the copy loop of \<^verbatim>\<open>OmpCsrSpmmT\<close> indexes with a
  \<^verbatim>\<open>private\<close> variable that holds no value.
\<close>

lemma OmpCsrSpmmT_column_major_input: "OmpCsrSpmmT (layout False True) 1 csr_2x2 (ptr [1, 3, 2, 4]) (filled 0) 2 (filled 0)
   = Inl PrivateUninitialised"
  by (simp add: eval_simps csr_2x2_def filled_def)

section \<open>The row-parallel kernel and the reference\<close>

text \<open>
  In exact arithmetic, with row-major input, the first vector of the row-parallel
  kernel's result is what \<^verbatim>\<open>SpmvGold\<close> computes with alpha 1 and beta 0 from the
  first vector of \<open>X\<close>, under either output layout.
\<close>

lemma OmpCsrSpmmT_matches_SpmvGold:
  fixes a :: "'a::semiring_1 CsrMatrix"
  assumes "g_input_row_major g" and "0 \<le> r" and "r < num_rows a" and "0 < num_vectors"
    and first_column: "\<forall>c. vector_x c = vector_x_row_major (c * num_vectors)"
  shows "\<exists>Y'. OmpCsrSpmmT g num_threads a vector_x vector_y_out num_vectors vector_x_row_major
                 = Inr Y' \<and>
              Y' (y_index g (num_rows a) num_vectors r 0)
                 = SpmvGold a vector_x vector_y_in reference_vector_y_out 1 0 r"
proof -
  have i: "(0::int) \<le> 0" "0 < nat num_vectors" using assms(4) by simp_all
  have l: "length (replicate (nat num_vectors) (0::'a)) = nat num_vectors" by simp
  have "spmmt_rows g a vector_x_row_major num_vectors 0 vector_y_out
          (y_index g (num_rows a) num_vectors r 0)
      = (\<Sum>k = ptr (row_offsets a) r..<ptr (row_offsets a) (r + 1).
           ptr (values' a) k * vector_x_row_major (ptr (column_indices a) k * num_vectors))"
    unfolding spmmt_rows_at [OF assms(2,3) i(1) assms(4)]
    using assms(2) i(2) by (simp add: consume_nonzeros_sum [OF l i(2)])
  moreover have "SpmvGold a vector_x vector_y_in reference_vector_y_out 1 0 r
      = (\<Sum>k = ptr (row_offsets a) r..<ptr (row_offsets a) (r + 1).
           ptr (values' a) k * vector_x_row_major (ptr (column_indices a) k * num_vectors))"
    using assms(2,3) first_column by (simp add: SpmvGold_def SpmvGold_rows_closed SpmvGold_row_sum)
  ultimately show ?thesis using assms(1) by (simp add: OmpCsrSpmmT_def)
qed

section \<open>The merge-path kernel computes the product\<close>

text \<open>
  In exact arithmetic, for every matrix that satisfies the invariants, every
  thread count from 1 to 256 and every number of vectors, the merge-path kernel
  leaves in each cell \<open>(r, i)\<close> of \<open>Y\<close> the product of row \<open>r\<close> with vector \<open>i\<close>,
  provided every iteration runs on an OS thread of its own. The
  proof follows the threads in order: before thread \<open>t\<close> runs, every row below its
  start row holds, together with the carry-outs recorded for it so far, its full
  product; the carry-outs recorded so far for the start row add up to the part of
  that row before the start position; and nothing is recorded for later rows.
\<close>

lemma sum_int_split:
  fixes f :: "int \<Rightarrow> 'a::comm_monoid_add"
  assumes "lo \<le> mid" and "mid \<le> hi"
  shows "(\<Sum>k = lo..<mid. f k) + (\<Sum>k = mid..<hi. f k) = (\<Sum>k = lo..<hi. f k)"
proof -
  have "{lo..<hi} = {lo..<mid} \<union> {mid..<hi}" using assms by auto
  moreover have "{lo..<mid} \<inter> {mid..<hi} = {}" by auto
  ultimately show ?thesis by (simp add: sum.union_disjoint)
qed

lemma consume_rows_content:
  fixes vals :: "int \<Rightarrow> 'a::semiring_0"
  assumes nv: "0 \<le> num_vectors"
    and mono: "\<forall>r. x \<le> r \<and> r + 1 < x_end \<longrightarrow> row_end_offsets r \<le> row_end_offsets (r + 1)"
    and start: "x < x_end \<longrightarrow> y \<le> row_end_offsets x"
  shows "fst (snd (consume_rows row_end_offsets col_ind vals X num_vectors x_end x y
                     (replicate (nat num_vectors) 0) Y))
           = (if x < x_end then row_end_offsets (x_end - 1) else y) \<and>
         (\<forall>r i. x \<le> r \<and> r < x_end \<and> 0 \<le> i \<and> i < num_vectors \<longrightarrow>
            snd (snd (snd (consume_rows row_end_offsets col_ind vals X num_vectors x_end x y
                             (replicate (nat num_vectors) 0) Y))) (r * num_vectors + i)
              = (\<Sum>k = (if r = x then y else row_end_offsets (r - 1))..<row_end_offsets r.
                   vals k * X (col_ind k * num_vectors + i)))"
  using mono start
proof (induction "nat (x_end - x)" arbitrary: x y Y)
  case 0
  then have "\<not> x < x_end" by simp
  then show ?case by (auto simp: consume_rows_stop)
next
  case (Suc n)
  then have lt: "x < x_end" by simp
  let ?z = "replicate (nat num_vectors) 0 :: 'a list"
  let ?rt = "snd (consume_nonzeros col_ind vals X num_vectors (row_end_offsets x) y ?z)"
  let ?V = "\<lambda>j. if x * num_vectors \<le> j \<and> j < x * num_vectors + num_vectors
                then ?rt ! nat (j - x * num_vectors) else Y j"
  let ?C = "\<lambda>Y0. consume_rows row_end_offsets col_ind vals X num_vectors x_end (x + 1)
                 (row_end_offsets x) ?z Y0"
  have lz: "length ?z = nat num_vectors" by simp
  have y: "max y (row_end_offsets x) = row_end_offsets x" using Suc.prems(2) lt by simp
  have step: "consume_rows row_end_offsets col_ind vals X num_vectors x_end x y ?z Y = ?C ?V"
    using consume_rows_step [OF lz lt, of row_end_offsets col_ind vals X y Y] unfolding y .
  have n: "n = nat (x_end - (x + 1))" using Suc.hyps(2) by simp
  have mono': "\<forall>r. x + 1 \<le> r \<and> r + 1 < x_end \<longrightarrow> row_end_offsets r \<le> row_end_offsets (r + 1)"
    using Suc.prems(1) by simp
  have start': "x + 1 < x_end \<longrightarrow> row_end_offsets x \<le> row_end_offsets (x + 1)"
    using Suc.prems(1) by simp
  note IH = Suc.hyps(1) [OF n mono' start', of ?V]
  have one: "fst (snd (?C ?V)) = row_end_offsets (x_end - 1)"
  proof (cases "x + 1 < x_end")
    case True
    then show ?thesis using IH by simp
  next
    case False
    then have "x_end - 1 = x" using lt by simp
    then show ?thesis using IH False by simp
  qed
  have two: "snd (snd (snd (?C ?V))) (r * num_vectors + i)
      = (\<Sum>k = (if r = x then y else row_end_offsets (r - 1))..<row_end_offsets r.
           vals k * X (col_ind k * num_vectors + i))"
    if h: "x \<le> r \<and> r < x_end \<and> 0 \<le> i \<and> i < num_vectors" for r i
  proof (cases "r = x")
    case True
    have out: "\<not> ((x + 1) * num_vectors \<le> x * num_vectors + i \<and> x * num_vectors + i < x_end * num_vectors)"
      using h by (simp add: algebra_simps)
    have "snd (snd (snd (?C ?V))) (x * num_vectors + i) = ?V (x * num_vectors + i)"
      using consume_rows_writes [OF lz nv, of row_end_offsets col_ind vals X x_end "x + 1"
          "row_end_offsets x" ?V "x * num_vectors + i"]
      by (simp only: if_not_P [OF out])
    also have "\<dots> = ?rt ! nat i" using h by simp
    also have "\<dots> = ?z ! nat i + (\<Sum>k = y..<row_end_offsets x.
                        vals k * X (col_ind k * num_vectors + int (nat i)))"
      using h by (intro consume_nonzeros_sum [OF lz]) simp
    also have "\<dots> = (\<Sum>k = y..<row_end_offsets x. vals k * X (col_ind k * num_vectors + i))"
      using h by simp
    finally show ?thesis using True by simp
  next
    case False
    then have r: "x + 1 \<le> r \<and> r < x_end \<and> 0 \<le> i \<and> i < num_vectors" using h by simp
    have "(if r = x + 1 then row_end_offsets x else row_end_offsets (r - 1)) = row_end_offsets (r - 1)"
      by simp
    then show ?thesis using IH r False by simp
  qed
  show ?case unfolding step using one two lt by simp
qed


lemma run_threads_invariant:
  assumes step: "\<And>t Y0. 0 \<le> t \<Longrightarrow> t < num_threads \<Longrightarrow> Inv t Y0 \<Longrightarrow>
                  Inv (t + 1) (fst (thread_work row_end_offsets col_ind vals X num_vectors
                                      (fst (coords t)) (snd (coords t)) Y0))"
    and "0 \<le> tid" and "tid \<le> num_threads" and "num_threads \<le> 256" and "Inv tid Y"
  shows "\<exists>Ypar rco' vco' fr'.
           run_threads os_thread coords row_end_offsets col_ind vals X num_vectors num_threads tid
             Y rco vco fr = Inr (Ypar, rco', vco', fr') \<and> Inv num_threads Ypar"
  using assms(2-5)
proof (induction "nat (num_threads - tid)" arbitrary: tid Y rco vco fr)
  case 0
  then have "tid = num_threads" by simp
  then show ?case using "0.prems" by (subst run_threads.simps) simp
next
  case (Suc n)
  then have lt: "tid < num_threads" by simp
  obtain Y' r c where w: "thread_work row_end_offsets col_ind vals X num_vectors (fst (coords tid))
        (snd (coords tid)) Y = (Y', r, c)"
    by (cases "thread_work row_end_offsets col_ind vals X num_vectors (fst (coords tid))
        (snd (coords tid)) Y") auto
  have inv: "Inv (tid + 1) Y'" using step [OF Suc.prems(1) lt Suc.prems(4)] w by simp
  have inb: "0 \<le> tid \<and> tid < 256" using Suc.prems lt by simp
  have stp: "run_threads os_thread coords row_end_offsets col_ind vals X num_vectors num_threads tid
        Y rco vco fr
      = run_threads os_thread coords row_end_offsets col_ind vals X num_vectors num_threads (tid + 1)
          Y' (rco(tid \<mapsto> r)) (vco(tid \<mapsto> os_thread tid)) (fr(os_thread tid \<mapsto> c))"
    using lt inb by (subst run_threads.simps) (simp add: w carry_write_def)
  have n: "n = nat (num_threads - (tid + 1))" using Suc.hyps(2) by simp
  have "0 \<le> tid + 1" "tid + 1 \<le> num_threads" using Suc.prems lt by simp_all
  from Suc.hyps(1) [OF n this Suc.prems(3) inv] show ?case unfolding stp .
qed

lemma ptr_row_offsets:
  "0 \<le> r \<Longrightarrow> row_end_offsets_of A r = ptr (row_offsets A) (r + 1)"
  by (simp add: row_end_offsets_of_def ptr_add_def add.commute)

lemma ptr_row_offsets_mono:
  assumes "csr_invariants A" and "0 \<le> r" and "r \<le> r'" and "r' \<le> num_rows A"
  shows "ptr (row_offsets A) r \<le> ptr (row_offsets A) r'"
proof -
  have "sorted (row_offsets A)" and "length (row_offsets A) = nat (num_rows A) + 1"
    using assms(1) by (simp_all add: csr_invariants_def)
  moreover have "nat r \<le> nat r'" "nat r' < nat (num_rows A) + 1" using assms by simp_all
  ultimately show ?thesis unfolding ptr_def by (intro sorted_nth_mono) simp_all
qed

lemma merge_coordinate_in_row:
  assumes "csr_invariants A" and "0 \<le> d" and "d \<le> num_rows A + num_nonzeros A"
  defines "c \<equiv> MergePathSearch d (row_end_offsets_of A) (CountingInputIterator 0)
                  (num_rows A) (num_nonzeros A)"
  shows "0 \<le> coord_x c" and "coord_x c \<le> num_rows A"
    and "ptr (row_offsets A) (coord_x c) \<le> coord_y c"
    and "coord_x c < num_rows A \<longrightarrow> coord_y c \<le> ptr (row_offsets A) (coord_x c + 1)"
proof -
  note L = MergePathSearch_csr [OF assms(1-3)]
  have y: "coord_y c = d - coord_x c" unfolding c_def by (rule L(1))
  show x0: "0 \<le> coord_x c" unfolding c_def using L(2) by simp
  show "coord_x c \<le> num_rows A" unfolding c_def using L(3) by simp
  show "ptr (row_offsets A) (coord_x c) \<le> coord_y c"
  proof (cases "coord_x c = 0")
    case True
    have "row_offsets A ! 0 = 0" using assms(1) by (simp add: csr_invariants_def)
    then show ?thesis using True assms(2) y by (simp add: ptr_def)
  next
    case False
    then have p: "0 \<le> coord_x c - 1 \<and> coord_x c - 1 < coord_x c" using x0 by simp
    then have "row_end_offsets_of A (coord_x c - 1) + (coord_x c - 1) < d"
      using L(4) unfolding c_def by blast
    moreover have "row_end_offsets_of A (coord_x c - 1) = ptr (row_offsets A) (coord_x c)"
      using p ptr_row_offsets [of "coord_x c - 1" A] by simp
    ultimately show ?thesis using y by simp
  qed
  show "coord_x c < num_rows A \<longrightarrow> coord_y c \<le> ptr (row_offsets A) (coord_x c + 1)"
  proof
    assume "coord_x c < num_rows A"
    then have "d \<le> row_end_offsets_of A (coord_x c) + coord_x c"
      using L(5) unfolding c_def by blast
    then show "coord_y c \<le> ptr (row_offsets A) (coord_x c + 1)"
      using y x0 by (simp add: ptr_row_offsets)
  qed
qed


lemma merge_start_diagonal_bounds:
  assumes "1 \<le> num_threads" and "0 \<le> num_rows a" and "0 \<le> num_nonzeros a" and "0 \<le> t"
  shows "0 \<le> merge_start_diagonal num_threads a t"
    and "merge_start_diagonal num_threads a t \<le> num_rows a + num_nonzeros a"
proof -
  have "0 \<le> num_rows a + num_nonzeros a" using assms by simp
  from ceil_share(1) [OF this assms(1)]
  have "0 \<le> merge_items_per_thread num_threads a" by (simp add: merge_items_per_thread_def)
  then show "0 \<le> merge_start_diagonal num_threads a t"
    and "merge_start_diagonal num_threads a t \<le> num_rows a + num_nonzeros a"
    using assms by (simp_all add: merge_start_diagonal_def)
qed

lemma merge_thread_coord_end_next:
  assumes "csr_invariants A" and "1 \<le> num_threads"
  shows "merge_thread_coord_end num_threads A row_end_offsets t
           = merge_thread_coord num_threads A row_end_offsets (t + 1)"
proof -
  have "0 \<le> num_rows A" "0 \<le> num_nonzeros A" using assms(1) by (simp_all add: csr_invariants_def)
  from merge_end_is_next_start [OF assms(2) this] show ?thesis
    by (simp add: merge_thread_coord_end_def merge_thread_coord_def)
qed

lemma merge_thread_coord_facts:
  assumes "csr_invariants A" and "1 \<le> num_threads" and "0 \<le> t"
  defines "c \<equiv> merge_thread_coord num_threads A (row_end_offsets_of A)"
  shows "0 \<le> coord_x (c t)" and "coord_x (c t) \<le> num_rows A"
    and "ptr (row_offsets A) (coord_x (c t)) \<le> coord_y (c t)"
    and "coord_x (c t) < num_rows A \<longrightarrow> coord_y (c t) \<le> ptr (row_offsets A) (coord_x (c t) + 1)"
    and "coord_x (c t) \<le> coord_x (c (t + 1))"
    and "coord_x (c t) = coord_x (c (t + 1)) \<longrightarrow> coord_y (c t) \<le> coord_y (c (t + 1))"
proof -
  have nr: "0 \<le> num_rows A" and nz: "0 \<le> num_nonzeros A"
    using assms(1) by (simp_all add: csr_invariants_def)
  note B = merge_start_diagonal_bounds [OF assms(2) nr nz assms(3)]
  have t1: "0 \<le> t + 1" using assms(3) by simp
  note B1 = merge_start_diagonal_bounds [OF assms(2) nr nz t1]
  note R = merge_coordinate_in_row [OF assms(1) B]
  show "0 \<le> coord_x (c t)" and "coord_x (c t) \<le> num_rows A"
    and "ptr (row_offsets A) (coord_x (c t)) \<le> coord_y (c t)"
    and "coord_x (c t) < num_rows A \<longrightarrow> coord_y (c t) \<le> ptr (row_offsets A) (coord_x (c t) + 1)"
    unfolding c_def merge_thread_coord_def using R by blast+
  have D: "merge_start_diagonal num_threads A t \<le> merge_start_diagonal num_threads A (t + 1)"
    by (intro merge_start_diagonal_mono [OF assms(2) nr nz]) simp
  show "coord_x (c t) \<le> coord_x (c (t + 1))"
    unfolding c_def merge_thread_coord_def
    by (intro MergePathSearch_csr_mono [OF assms(1) B(1) D B1(2)])
  have y: "coord_y (c s) = merge_start_diagonal num_threads A s - coord_x (c s)" if "0 \<le> s" for s
    unfolding c_def merge_thread_coord_def
    using MergePathSearch_csr(1) [OF assms(1) merge_start_diagonal_bounds [OF assms(2) nr nz that]] .
  show "coord_x (c t) = coord_x (c (t + 1)) \<longrightarrow> coord_y (c t) \<le> coord_y (c (t + 1))"
    using y [OF assms(3)] y [OF t1] D by simp
qed


lemma merge_thread_content:
  fixes vals :: "int \<Rightarrow> 'a::semiring_0"
  assumes "csr_invariants A" and "1 \<le> num_threads" and "0 \<le> t" and "0 \<le> num_vectors"
  defines "c \<equiv> merge_thread_coord num_threads A (row_end_offsets_of A)"
  shows "\<forall>r i. coord_x (c t) \<le> r \<and> r < coord_x (c (t + 1)) \<and> 0 \<le> i \<and> i < num_vectors \<longrightarrow>
           fst (thread_work (row_end_offsets_of A) col_ind vals X num_vectors (c t) (c (t + 1)) Y)
             (r * num_vectors + i)
           = row_sum col_ind vals X num_vectors
               (if r = coord_x (c t) then coord_y (c t) else ptr (row_offsets A) r)
               (ptr (row_offsets A) (r + 1)) i"
    and "\<forall>i. 0 \<le> i \<and> i < num_vectors \<longrightarrow>
           snd (snd (thread_work (row_end_offsets_of A) col_ind vals X num_vectors (c t) (c (t + 1)) Y))
             ! nat i
           = row_sum col_ind vals X num_vectors
               (if coord_x (c t) < coord_x (c (t + 1)) then ptr (row_offsets A) (coord_x (c (t + 1)))
                else coord_y (c t))
               (coord_y (c (t + 1))) i"
proof -
  let ?re = "row_end_offsets_of A"
  let ?z = "replicate (nat num_vectors) 0 :: 'a list"
  let ?x = "coord_x (c t)" and ?y = "coord_y (c t)"
  let ?x' = "coord_x (c (t + 1))" and ?y' = "coord_y (c (t + 1))"
  let ?R = "consume_rows ?re col_ind vals X num_vectors ?x' ?x ?y ?z Y"
  have t1: "0 \<le> t + 1" using assms(3) by simp
  note F = merge_thread_coord_facts [OF assms(1,2,3), folded c_def]
  note F1 = merge_thread_coord_facts [OF assms(1,2) t1, folded c_def]
  have lz: "length ?z = nat num_vectors" by simp
  have mono: "\<forall>r. ?x \<le> r \<and> r + 1 < ?x' \<longrightarrow> ?re r \<le> ?re (r + 1)"
  proof (intro allI impI)
    fix r assume "?x \<le> r \<and> r + 1 < ?x'"
    then have "0 \<le> r" "r \<le> r + 1" "r + 1 < num_rows A" using F(1) F1(2) by simp_all
    then show "?re r \<le> ?re (r + 1)" by (rule row_end_offsets_of_mono [OF assms(1)])
  qed
  have start: "?x < ?x' \<longrightarrow> ?y \<le> ?re ?x"
    using F(1,4) F1(2) by (simp add: ptr_row_offsets)
  note Cn = consume_rows_content [OF assms(4) mono start, of col_ind vals X Y]
  from consume_rows_state [OF lz, of ?re col_ind vals X ?x' ?x ?y Y]
  obtain y0 Y' where R: "?R = (max ?x ?x', y0, ?z, Y')" by (auto split: if_splits)
  have y0: "y0 = (if ?x < ?x' then ?re (?x' - 1) else ?y)" using Cn R by simp
  have tw: "thread_work ?re col_ind vals X num_vectors (c t) (c (t + 1)) Y
      = (Y', ?x', snd (consume_nonzeros col_ind vals X num_vectors ?y' y0 ?z))"
    unfolding thread_work_def R by (simp split: prod.splits)
  show "\<forall>r i. ?x \<le> r \<and> r < ?x' \<and> 0 \<le> i \<and> i < num_vectors \<longrightarrow>
           fst (thread_work ?re col_ind vals X num_vectors (c t) (c (t + 1)) Y) (r * num_vectors + i)
           = row_sum col_ind vals X num_vectors
               (if r = ?x then ?y else ptr (row_offsets A) r) (ptr (row_offsets A) (r + 1)) i"
  proof (intro allI impI)
    fix r i assume h: "?x \<le> r \<and> r < ?x' \<and> 0 \<le> i \<and> i < num_vectors"
    have r0: "0 \<le> r" using h F(1) by simp
    have "Y' (r * num_vectors + i)
        = (\<Sum>k = (if r = ?x then ?y else ?re (r - 1))..<?re r.
             vals k * X (col_ind k * num_vectors + i))"
      using Cn h R by simp
    moreover have "?re r = ptr (row_offsets A) (r + 1)" using r0 by (rule ptr_row_offsets)
    moreover have "r \<noteq> ?x \<longrightarrow> ?re (r - 1) = ptr (row_offsets A) r"
      using h F(1) ptr_row_offsets [of "r - 1" A] by simp
    ultimately show "fst (thread_work ?re col_ind vals X num_vectors (c t) (c (t + 1)) Y)
             (r * num_vectors + i)
           = row_sum col_ind vals X num_vectors
               (if r = ?x then ?y else ptr (row_offsets A) r) (ptr (row_offsets A) (r + 1)) i"
      unfolding tw row_sum_def by simp
  qed
  show "\<forall>i. 0 \<le> i \<and> i < num_vectors \<longrightarrow>
           snd (snd (thread_work ?re col_ind vals X num_vectors (c t) (c (t + 1)) Y)) ! nat i
           = row_sum col_ind vals X num_vectors
               (if ?x < ?x' then ptr (row_offsets A) ?x' else ?y) ?y' i"
  proof (intro allI impI)
    fix i assume h: "0 \<le> i \<and> i < num_vectors"
    then have i: "nat i < nat num_vectors" by simp
    have "?x < ?x' \<longrightarrow> ?re (?x' - 1) = ptr (row_offsets A) ?x'"
      using F(1) ptr_row_offsets [of "?x' - 1" A] by simp
    then have "y0 = (if ?x < ?x' then ptr (row_offsets A) ?x' else ?y)" using y0 by simp
    then show "snd (snd (thread_work ?re col_ind vals X num_vectors (c t) (c (t + 1)) Y)) ! nat i
           = row_sum col_ind vals X num_vectors
               (if ?x < ?x' then ptr (row_offsets A) ?x' else ?y) ?y' i"
      unfolding tw row_sum_def using consume_nonzeros_sum [OF lz i, of col_ind vals X ?y' y0] h
      by simp
  qed
qed


lemma carried_into_none:
  "carried_into 1 a_num_rows num_vectors row tot j = 0"
  by (simp add: carried_into_def)

lemma carried_into_next:
  assumes "0 \<le> t"
  shows "carried_into (t + 2) a_num_rows num_vectors row tot j =
           carried_into (t + 1) a_num_rows num_vectors row tot j +
           (if row t < a_num_rows \<and> row t * num_vectors \<le> j \<and> j < row t * num_vectors + num_vectors
            then tot t ! nat (j - row t * num_vectors) else 0)"
proof -
  let ?P = "\<lambda>t. row t < a_num_rows \<and> row t * num_vectors \<le> j \<and> j < row t * num_vectors + num_vectors"
  let ?f = "\<lambda>t. tot t ! nat (j - row t * num_vectors)"
  have interval: "{0..<t + 2 - 1} = insert t {0..<t + 1 - 1}" using assms by auto
  have fin: "finite {s \<in> {0..<t + 1 - 1}. ?P s}"
    by (rule finite_subset [of _ "{0..<t + 1 - 1}"]) auto
  have notin: "t \<notin> {s \<in> {0..<t + 1 - 1}. ?P s}" by simp
  show ?thesis
  proof (cases "?P t")
    case True
    have "{s \<in> {0..<t + 2 - 1}. ?P s} = insert t {s \<in> {0..<t + 1 - 1}. ?P s}"
      unfolding interval using True by auto
    then have "carried_into (t + 2) a_num_rows num_vectors row tot j
        = ?f t + carried_into (t + 1) a_num_rows num_vectors row tot j"
      unfolding carried_into_def using sum.insert [OF fin notin, of ?f] by simp
    then show ?thesis using True by (simp add: add.commute)
  next
    case False
    have "{s \<in> {0..<t + 2 - 1}. ?P s} = {s \<in> {0..<t + 1 - 1}. ?P s}"
      unfolding interval using False by auto
    then have "carried_into (t + 2) a_num_rows num_vectors row tot j
        = carried_into (t + 1) a_num_rows num_vectors row tot j"
      unfolding carried_into_def by simp
    then show ?thesis by (simp only: if_not_P [OF False] add_0_right)
  qed
qed

lemma cell_in_row:
  fixes i num_vectors x r :: int
  assumes "0 \<le> i" and "i < num_vectors"
  shows "(x * num_vectors \<le> r * num_vectors + i \<and> r * num_vectors + i < x * num_vectors + num_vectors)
           \<longleftrightarrow> x = r"
proof
  assume h: "x * num_vectors \<le> r * num_vectors + i \<and> r * num_vectors + i < x * num_vectors + num_vectors"
  let ?i' = "r * num_vectors + i - x * num_vectors"
  have "0 \<le> ?i'" "?i' < num_vectors" "r * num_vectors + i = x * num_vectors + ?i'"
    using h by simp_all
  from mixed_radix_inj [OF assms this] show "x = r" by simp
next
  assume "x = r"
  then show "x * num_vectors \<le> r * num_vectors + i \<and> r * num_vectors + i < x * num_vectors + num_vectors"
    using assms by simp
qed


lemma merge_carry_total:
  fixes vals :: "int \<Rightarrow> 'a::semiring_0"
  assumes "csr_invariants A" and "1 \<le> num_threads" and "0 \<le> t" and "0 \<le> num_vectors"
    and "0 \<le> i" and "i < num_vectors"
  defines "c \<equiv> merge_thread_coord num_threads A (row_end_offsets_of A)"
  shows "carry_total (row_end_offsets_of A) col_ind vals X num_vectors
           (merge_coords num_threads A (row_end_offsets_of A)) t ! nat i
         = row_sum col_ind vals X num_vectors
             (if coord_x (c t) < coord_x (c (t + 1)) then ptr (row_offsets A) (coord_x (c (t + 1)))
              else coord_y (c t))
             (coord_y (c (t + 1))) i"
proof -
  have "carry_total (row_end_offsets_of A) col_ind vals X num_vectors
           (merge_coords num_threads A (row_end_offsets_of A)) t
      = snd (snd (thread_work (row_end_offsets_of A) col_ind vals X num_vectors (c t) (c (t + 1))
                    (filled 0)))"
    unfolding carry_total_def merge_coords_def c_def
    by (simp add: merge_thread_coord_end_next [OF assms(1,2)])
  then show ?thesis
    using merge_thread_content(2) [OF assms(1-4), of col_ind vals X "filled 0", folded c_def]
      assms(5,6) by simp
qed

lemma merge_carried_next:
  fixes vals :: "int \<Rightarrow> 'a::semiring_0" and X :: "int \<Rightarrow> 'a" and col_ind :: "int \<Rightarrow> int"
  assumes "csr_invariants A" and "1 \<le> num_threads" and "0 \<le> t"
    and "r < num_rows A" and "0 \<le> i" and "i < num_vectors"
  defines "c \<equiv> merge_thread_coord num_threads A (row_end_offsets_of A)"
    and "Cv \<equiv> \<lambda>t. carried_into (t + 1) (num_rows A) num_vectors
                   (\<lambda>tid. coord_x (merge_thread_coord_end num_threads A (row_end_offsets_of A) tid))
                   (carry_total (row_end_offsets_of A) col_ind vals X num_vectors
                      (merge_coords num_threads A (row_end_offsets_of A)))
                   (r * num_vectors + i)"
  shows "Cv (t + 1) = Cv t +
      (if coord_x (c (t + 1)) = r
       then carry_total (row_end_offsets_of A) col_ind vals X num_vectors
              (merge_coords num_threads A (row_end_offsets_of A)) t ! nat i
       else 0)"
proof -
  let ?x' = "coord_x (c (t + 1))"
  let ?row = "\<lambda>tid. coord_x (merge_thread_coord_end num_threads A (row_end_offsets_of A) tid)"
  let ?tot = "carry_total (row_end_offsets_of A) col_ind vals X num_vectors
           (merge_coords num_threads A (row_end_offsets_of A))"
  let ?j = "r * num_vectors + i"
  let ?P = "?x' < num_rows A \<and> ?x' * num_vectors \<le> ?j \<and> ?j < ?x' * num_vectors + num_vectors"
  have row: "coord_x (merge_thread_coord_end num_threads A (row_end_offsets_of A) t) = ?x'"
    unfolding c_def by (simp add: merge_thread_coord_end_next [OF assms(1,2)])
  have P: "?P \<longleftrightarrow> ?x' = r"
    using cell_in_row [OF assms(5,6), of ?x' r] assms(4) by auto
  have e: "t + 1 + 1 = t + 2" by simp
  have N: "carried_into (t + 2) (num_rows A) num_vectors ?row ?tot ?j
      = carried_into (t + 1) (num_rows A) num_vectors ?row ?tot ?j +
        (if ?P then ?tot t ! nat (?j - ?x' * num_vectors) else 0)"
    using carried_into_next [OF assms(3), of "num_rows A" num_vectors ?row ?tot ?j]
    unfolding row .
  show ?thesis
  proof (cases "?x' = r")
    case True
    then have p: "?P" using P by simp
    have "carried_into (t + 2) (num_rows A) num_vectors ?row ?tot ?j
      = carried_into (t + 1) (num_rows A) num_vectors ?row ?tot ?j +
        ?tot t ! nat (?j - ?x' * num_vectors)"
      using N unfolding if_P [OF p] .
    moreover have "?j - ?x' * num_vectors = i" using True by simp
    ultimately show ?thesis unfolding Cv_def e using True by simp
  next
    case False
    then have p: "\<not> ?P" using P by simp
    have "carried_into (t + 2) (num_rows A) num_vectors ?row ?tot ?j
      = carried_into (t + 1) (num_rows A) num_vectors ?row ?tot ?j + 0"
      using N unfolding if_not_P [OF p] .
    then show ?thesis unfolding Cv_def e using False by simp
  qed
qed

lemma merge_carried_before:
  fixes vals :: "int \<Rightarrow> 'a::semiring_0" and X :: "int \<Rightarrow> 'a" and col_ind :: "int \<Rightarrow> int"
  assumes "csr_invariants A" and "1 \<le> num_threads" and "0 \<le> num_vectors" and "0 \<le> t"
    and "0 \<le> r" and "r < num_rows A" and "0 \<le> i" and "i < num_vectors"
  defines "c \<equiv> merge_thread_coord num_threads A (row_end_offsets_of A)"
    and "Cv \<equiv> \<lambda>t. carried_into (t + 1) (num_rows A) num_vectors
                   (\<lambda>tid. coord_x (merge_thread_coord_end num_threads A (row_end_offsets_of A) tid))
                   (carry_total (row_end_offsets_of A) col_ind vals X num_vectors
                      (merge_coords num_threads A (row_end_offsets_of A)))
                   (r * num_vectors + i)"
  shows "(r = coord_x (c t) \<longrightarrow>
            Cv t = row_sum col_ind vals X num_vectors (ptr (row_offsets A) r) (coord_y (c t)) i) \<and>
         (coord_x (c t) < r \<longrightarrow> Cv t = 0)"
  using assms(4)
proof (induction t rule: int_ge_induct)
  case base
  have nr: "0 \<le> num_rows A" and nz: "0 \<le> num_nonzeros A"
    using assms(1) by (simp_all add: csr_invariants_def)
  have D0: "merge_start_diagonal num_threads A 0 = 0"
    using nr nz by (simp add: merge_start_diagonal_def)
  have z: "(0::int) \<le> 0" "(0::int) \<le> num_rows A + num_nonzeros A" using nr nz by simp_all
  have x0: "coord_x (c 0) = 0"
    unfolding c_def merge_thread_coord_def D0
    using MergePathSearch_csr(2,3) [OF assms(1) z] nr by simp
  have y0: "coord_y (c 0) = 0"
    unfolding c_def merge_thread_coord_def D0
    using MergePathSearch_csr(1) [OF assms(1) z] x0 [unfolded c_def merge_thread_coord_def D0]
    by simp
  have ro0: "ptr (row_offsets A) 0 = 0" using assms(1) by (simp add: csr_invariants_def ptr_def)
  have "Cv 0 = 0" unfolding Cv_def by (simp add: carried_into_none)
  then show ?case using x0 y0 ro0 by (simp add: row_sum_def)
next
  case (step t)
  let ?ro = "ptr (row_offsets A)"
  let ?x = "coord_x (c t)" and ?y = "coord_y (c t)"
  let ?x' = "coord_x (c (t + 1))" and ?y' = "coord_y (c (t + 1))"
  note F = merge_thread_coord_facts [OF assms(1,2) step.hyps, folded c_def]
  have t1: "0 \<le> t + 1" using step.hyps by simp
  note F1 = merge_thread_coord_facts [OF assms(1,2) t1, folded c_def]
  have row: "coord_x (merge_thread_coord_end num_threads A (row_end_offsets_of A) t) = ?x'"
    unfolding c_def by (simp add: merge_thread_coord_end_next [OF assms(1,2)])
  have nxt: "Cv (t + 1) = Cv t +
      (if ?x' = r
       then carry_total (row_end_offsets_of A) col_ind vals X num_vectors
              (merge_coords num_threads A (row_end_offsets_of A)) t ! nat i
       else 0)"
    unfolding Cv_def c_def
    by (rule merge_carried_next [OF assms(1,2) step.hyps assms(6,7,8)])
  note K = merge_carry_total [OF assms(1,2) step.hyps assms(3,7,8), of col_ind vals X, folded c_def]
  show ?case
  proof (intro conjI impI)
    assume r: "r = ?x'"
    show "Cv (t + 1) = row_sum col_ind vals X num_vectors (?ro r) ?y' i"
    proof (cases "?x < ?x'")
      case True
      then have "Cv t = 0" using step.IH r by simp
      then show ?thesis unfolding nxt K using r True by simp
    next
      case False
      then have same: "?x = ?x'" using F(5) by simp
      then have "Cv t = row_sum col_ind vals X num_vectors (?ro r) ?y i" using step.IH r by simp
      moreover have "?ro r \<le> ?y" using F(3) same r by simp
      moreover have "?y \<le> ?y'" using F(6) same by simp
      ultimately show ?thesis
        unfolding nxt K row_sum_def using r False sum_int_split [of "?ro r" ?y ?y'] by simp
    qed
  next
    assume r: "?x' < r"
    then have "?x < r" using F(5) by simp
    then have "Cv t = 0" using step.IH by simp
    then show "Cv (t + 1) = 0" unfolding nxt using r by simp
  qed
qed


lemma merge_invariant_step:
  fixes vals :: "int \<Rightarrow> 'a::semiring_0" and X :: "int \<Rightarrow> 'a" and col_ind :: "int \<Rightarrow> int"
  assumes "csr_invariants A" and "1 \<le> num_threads" and "0 \<le> num_vectors" and "0 \<le> t"
  defines "c \<equiv> merge_thread_coord num_threads A (row_end_offsets_of A)"
    and "Cv \<equiv> \<lambda>r i t. carried_into (t + 1) (num_rows A) num_vectors
                   (\<lambda>tid. coord_x (merge_thread_coord_end num_threads A (row_end_offsets_of A) tid))
                   (carry_total (row_end_offsets_of A) col_ind vals X num_vectors
                      (merge_coords num_threads A (row_end_offsets_of A)))
                   (r * num_vectors + i)"
  assumes inv: "\<forall>r i. 0 \<le> r \<and> r < coord_x (c t) \<and> 0 \<le> i \<and> i < num_vectors \<longrightarrow>
                  Y (r * num_vectors + i) + Cv r i t
                    = row_sum col_ind vals X num_vectors (ptr (row_offsets A) r)
                        (ptr (row_offsets A) (r + 1)) i"
  shows "\<forall>r i. 0 \<le> r \<and> r < coord_x (c (t + 1)) \<and> 0 \<le> i \<and> i < num_vectors \<longrightarrow>
           fst (thread_work (row_end_offsets_of A) col_ind vals X num_vectors (c t) (c (t + 1)) Y)
             (r * num_vectors + i) + Cv r i (t + 1)
           = row_sum col_ind vals X num_vectors (ptr (row_offsets A) r)
               (ptr (row_offsets A) (r + 1)) i"
proof (intro allI impI)
  fix r i assume h: "0 \<le> r \<and> r < coord_x (c (t + 1)) \<and> 0 \<le> i \<and> i < num_vectors"
  let ?ro = "ptr (row_offsets A)"
  let ?x = "coord_x (c t)" and ?y = "coord_y (c t)" and ?x' = "coord_x (c (t + 1))"
  let ?W = "fst (thread_work (row_end_offsets_of A) col_ind vals X num_vectors (c t) (c (t + 1)) Y)"
  note F = merge_thread_coord_facts [OF assms(1,2,4), folded c_def]
  have t1: "0 \<le> t + 1" using assms(4) by simp
  note F1 = merge_thread_coord_facts [OF assms(1,2) t1, folded c_def]
  have rn: "r < num_rows A" using h F1(2) by simp
  have "Cv r i (t + 1) = Cv r i t +
      (if ?x' = r
       then carry_total (row_end_offsets_of A) col_ind vals X num_vectors
              (merge_coords num_threads A (row_end_offsets_of A)) t ! nat i
       else 0)"
    unfolding Cv_def c_def using h
    by (intro merge_carried_next [OF assms(1,2,4) rn]) simp_all
  then have same: "Cv r i (t + 1) = Cv r i t" using h by simp
  show "?W (r * num_vectors + i) + Cv r i (t + 1)
           = row_sum col_ind vals X num_vectors (?ro r) (?ro (r + 1)) i"
  proof (cases "r < ?x")
    case True
    then have "(r + 1) * num_vectors \<le> ?x * num_vectors"
      using assms(3) by (intro mult_right_mono) simp_all
    then have out: "\<not> (?x * num_vectors \<le> r * num_vectors + i \<and> r * num_vectors + i < ?x' * num_vectors)"
      using h by (simp add: algebra_simps)
    have "?W (r * num_vectors + i) = Y (r * num_vectors + i)"
      using thread_work_writes [OF assms(3), of "row_end_offsets_of A" col_ind vals X "c t"
          "c (t + 1)" Y "r * num_vectors + i"] unfolding if_not_P [OF out] .
    then show ?thesis unfolding same using inv True h by simp
  next
    case False
    then have own: "?x \<le> r \<and> r < ?x' \<and> 0 \<le> i \<and> i < num_vectors" using h by simp
    have W: "?W (r * num_vectors + i)
        = row_sum col_ind vals X num_vectors (if r = ?x then ?y else ?ro r) (?ro (r + 1)) i"
      using merge_thread_content(1) [OF assms(1,2,4,3), of col_ind vals X Y, folded c_def] own
      by blast
    note B = merge_carried_before [OF assms(1,2,3,4) _ rn, of i col_ind vals X, folded c_def]
    show ?thesis
    proof (cases "r = ?x")
      case True
      have "Cv r i t = row_sum col_ind vals X num_vectors (?ro r) ?y i"
        unfolding Cv_def using B h True by simp
      moreover have "?ro r \<le> ?y" using F(3) True by simp
      moreover have "?y \<le> ?ro (r + 1)" using F(4) True rn by simp
      ultimately show ?thesis
        unfolding same W row_sum_def using True sum_int_split [of "?ro r" ?y "?ro (r + 1)"]
        by (simp add: add.commute)
    next
      case ne: False
      then have "?x < r" using False by simp
      then have "Cv r i t = 0" unfolding Cv_def using B h by simp
      then show ?thesis unfolding same W using ne by simp
    qed
  qed
qed


lemma OmpMergeCsrmm_computes_product:
  fixes vals :: "int \<Rightarrow> 'a::semiring_0" and X :: "int \<Rightarrow> 'a" and col_ind :: "int \<Rightarrow> int"
  assumes "csr_invariants A" and "1 \<le> num_threads" and "num_threads \<le> 256"
    and "0 \<le> num_vectors" and "inj_on os_thread {0..<num_threads}"
  shows "\<exists>Y'. OmpMergeCsrmm os_thread num_threads A (row_end_offsets_of A) col_ind vals vector_x Y
                 num_vectors X = Inr Y' \<and>
              (\<forall>r i. 0 \<le> r \<and> r < num_rows A \<and> 0 \<le> i \<and> i < num_vectors \<longrightarrow>
                 Y' (r * num_vectors + i)
                   = row_sum col_ind vals X num_vectors (ptr (row_offsets A) r)
                       (ptr (row_offsets A) (r + 1)) i)"
proof -
  let ?re = "row_end_offsets_of A"
  let ?coords = "merge_coords num_threads A ?re"
  let ?row = "\<lambda>tid. coord_x (merge_thread_coord_end num_threads A ?re tid)"
  let ?tot = "carry_total ?re col_ind vals X num_vectors ?coords"
  define c where "c = merge_thread_coord num_threads A ?re"
  define Cv where "Cv = (\<lambda>r i t. carried_into (t + 1) (num_rows A) num_vectors ?row ?tot
                                   (r * num_vectors + i))"
  define Inv where "Inv = (\<lambda>t Y0. \<forall>r i. 0 \<le> r \<and> r < coord_x (c t) \<and> 0 \<le> i \<and> i < num_vectors \<longrightarrow>
                  Y0 (r * num_vectors + i) + Cv r i t
                    = row_sum col_ind vals X num_vectors (ptr (row_offsets A) r)
                        (ptr (row_offsets A) (r + 1)) i)"
  have nr: "0 \<le> num_rows A" and nz: "0 \<le> num_nonzeros A"
    using assms(1) by (simp_all add: csr_invariants_def)
  have co: "fst (?coords t) = c t" "snd (?coords t) = c (t + 1)" for t
    unfolding c_def merge_coords_def
    by (simp_all add: merge_thread_coord_end_next [OF assms(1,2)])
  have step: "Inv (t + 1) (fst (thread_work ?re col_ind vals X num_vectors
                                   (fst (?coords t)) (snd (?coords t)) Y0))"
    if "0 \<le> t" "t < num_threads" "Inv t Y0" for t Y0
    unfolding co using that(3) unfolding Inv_def Cv_def c_def
    by (rule merge_invariant_step [OF assms(1,2,4) that(1)])
  have D0: "merge_start_diagonal num_threads A 0 = 0"
    using nr nz by (simp add: merge_start_diagonal_def)
  have z: "(0::int) \<le> 0" "(0::int) \<le> num_rows A + num_nonzeros A" using nr nz by simp_all
  have x0: "coord_x (c 0) = 0"
    unfolding c_def merge_thread_coord_def D0
    using MergePathSearch_csr(2,3) [OF assms(1) z] nr by simp
  have inv0: "Inv 0 Y" unfolding Inv_def x0 by auto
  have nt0: "(0::int) \<le> num_threads" using assms(2) by simp
  from run_threads_invariant [of num_threads Inv ?re col_ind vals X num_vectors ?coords 0 Y
      os_thread Map.empty Map.empty Map.empty, OF step z(1) nt0 assms(3) inv0]
  obtain Ypar rco vco fr where
    run: "run_threads os_thread ?coords ?re col_ind vals X num_vectors num_threads 0 Y
            Map.empty Map.empty Map.empty = Inr (Ypar, rco, vco, fr)"
    and inv: "Inv num_threads Ypar"
    by blast
  have cl: "OmpMergeCsrmm os_thread num_threads A ?re col_ind vals vector_x Y num_vectors X
      = Inr (\<lambda>j. Ypar j + carried_into num_threads (num_rows A) num_vectors ?row ?tot j)"
  proof -
    from load_balanced_csrmm_closed [OF assms(3,5), of ?coords ?re col_ind vals X num_vectors Y
        "num_rows A"]
    obtain Ypar' rco' vco' fr' where
      run': "run_threads os_thread ?coords ?re col_ind vals X num_vectors num_threads 0 Y
            Map.empty Map.empty Map.empty = Inr (Ypar', rco', vco', fr')"
      and k: "load_balanced_csrmm os_thread ?coords num_threads (num_rows A) ?re col_ind vals Y
                num_vectors X
            = Inr (\<lambda>j. Ypar' j + carried_into num_threads (num_rows A) num_vectors
                                  (\<lambda>tid. coord_x (snd (?coords tid))) ?tot j)"
      by blast
    have "Ypar' = Ypar" using run run' by simp
    moreover have "(\<lambda>tid. coord_x (snd (?coords tid))) = ?row"
      by (simp add: merge_coords_def)
    ultimately show ?thesis using k by (simp add: OmpMergeCsrmm_def)
  qed
  have xn: "coord_x (c num_threads) = num_rows A"
  proof -
    have "c (num_threads - 1 + 1) = merge_thread_coord_end num_threads A ?re (num_threads - 1)"
      unfolding c_def by (rule merge_thread_coord_end_next [OF assms(1,2), symmetric])
    then show ?thesis
      using merge_last_thread_ends_at_num_rows [OF assms(2) nr nz, of ?re] by simp
  qed
  have "Ypar (r * num_vectors + i) + carried_into num_threads (num_rows A) num_vectors ?row ?tot
                                       (r * num_vectors + i)
      = row_sum col_ind vals X num_vectors (ptr (row_offsets A) r) (ptr (row_offsets A) (r + 1)) i"
    if h: "0 \<le> r \<and> r < num_rows A \<and> 0 \<le> i \<and> i < num_vectors" for r i
  proof -
    have t: "0 \<le> num_threads - 1" using assms(2) by simp
    have rn: "r < num_rows A" and i: "0 \<le> i" "i < num_vectors" using h by simp_all
    have "Cv r i (num_threads - 1 + 1) = Cv r i (num_threads - 1) +
        (if coord_x (c (num_threads - 1 + 1)) = r then ?tot (num_threads - 1) ! nat i else 0)"
      unfolding Cv_def c_def by (rule merge_carried_next [OF assms(1,2) t rn i])
    then have e: "Cv r i num_threads = carried_into num_threads (num_rows A) num_vectors ?row ?tot
                                       (r * num_vectors + i)"
      using xn h by (simp add: Cv_def)
    have "Ypar (r * num_vectors + i) + Cv r i num_threads
      = row_sum col_ind vals X num_vectors (ptr (row_offsets A) r) (ptr (row_offsets A) (r + 1)) i"
      using inv h unfolding Inv_def xn by blast
    then show ?thesis unfolding e .
  qed
  then show ?thesis unfolding cl by blast
qed


lemma OmpMergeCsrmm_matches_SpmvGold:
  fixes A :: "'a::semiring_1 CsrMatrix"
  assumes "csr_invariants A" and "1 \<le> num_threads" and "num_threads \<le> 256"
    and "inj_on os_thread {0..<num_threads}"
    and "0 < num_vectors" and "0 \<le> r" and "r < num_rows A"
    and first_column: "\<forall>c. vector_x c = vector_x_row_major (c * num_vectors)"
  shows "\<exists>Y'. OmpMergeCsrmm os_thread num_threads A (row_end_offsets_of A)
                 (ptr (column_indices A)) (ptr (values' A)) vector_x vector_y_out num_vectors
                 vector_x_row_major = Inr Y' \<and>
              Y' (r * num_vectors) = SpmvGold A vector_x vector_y_in reference_vector_y_out 1 0 r"
proof -
  have nv: "0 \<le> num_vectors" using assms(5) by simp
  from OmpMergeCsrmm_computes_product [OF assms(1-3) nv assms(4), of "ptr (column_indices A)"
      "ptr (values' A)" vector_x vector_y_out vector_x_row_major]
  obtain Y' where
    k: "OmpMergeCsrmm os_thread num_threads A (row_end_offsets_of A) (ptr (column_indices A))
          (ptr (values' A)) vector_x vector_y_out num_vectors vector_x_row_major = Inr Y'"
    and p: "\<forall>r i. 0 \<le> r \<and> r < num_rows A \<and> 0 \<le> i \<and> i < num_vectors \<longrightarrow>
                 Y' (r * num_vectors + i)
                   = row_sum (ptr (column_indices A)) (ptr (values' A)) vector_x_row_major
                       num_vectors (ptr (row_offsets A) r) (ptr (row_offsets A) (r + 1)) i"
    by blast
  have "Y' (r * num_vectors + 0)
      = row_sum (ptr (column_indices A)) (ptr (values' A)) vector_x_row_major
          num_vectors (ptr (row_offsets A) r) (ptr (row_offsets A) (r + 1)) 0"
    using p assms(5,6,7) by blast
  moreover have "SpmvGold A vector_x vector_y_in reference_vector_y_out 1 0 r
      = row_sum (ptr (column_indices A)) (ptr (values' A)) vector_x_row_major
          num_vectors (ptr (row_offsets A) r) (ptr (row_offsets A) (r + 1)) 0"
    using assms(6,7) first_column
    by (simp add: SpmvGold_def SpmvGold_rows_closed SpmvGold_row_sum row_sum_def)
  ultimately show ?thesis using k by simp
qed

section \<open>Row ownership in the merge-path kernel\<close>

text \<open>
  Claim C4, as amended. For every matrix that satisfies the invariants, every
  thread count from 1 to 256 and every row \<open>r\<close>, in the merge-path kernel:

  \<^item> exactly one thread, the \<open>owner\<close>, has \<open>r\<close> in its range of whole rows
    \<open>[thread_coord.x, thread_coord_end.x)\<close>;
  \<^item> the body of the owner overwrites every cell of row \<open>r\<close>, whatever the cell
    held, with the products of the nonzeros of the row from the owner's start
    position on; the body of every other thread leaves the cells of row \<open>r\<close> as
    they are; so after the parallel loop (output \<open>Ypar\<close>) the row holds what its
    owner wrote;
  \<^item> when every iteration runs on an OS thread of its own, the fix-up adds to the
    row the carry-out of each thread \<open>tid < num_threads - 1\<close> that ends inside it
    (\<open>thread_coord_end.x = r\<close>), once: the products of the nonzeros from the start
    of the row, or from the thread's start position if that lies in the row, up
    to \<open>thread_coord_end.y\<close>. There may be any number of such threads.

  Sums are in exact arithmetic.
\<close>

theorem merge_rows_have_one_owner:
  fixes vals :: "int \<Rightarrow> 'a::semiring_0" and X :: "int \<Rightarrow> 'a" and col_ind :: "int \<Rightarrow> int"
  assumes "csr_invariants A" and "1 \<le> num_threads" and "num_threads \<le> 256"
    and "inj_on os_thread {0..<num_threads}"
    and "0 \<le> r" and "r < num_rows A"
  shows "\<exists>owner. 0 \<le> owner \<and> owner < num_threads \<and>
    (\<forall>tid. 0 \<le> tid \<and> tid < num_threads \<longrightarrow>
       (coord_x (merge_thread_coord num_threads A (row_end_offsets_of A) tid) \<le> r \<and>
        r < coord_x (merge_thread_coord_end num_threads A (row_end_offsets_of A) tid))
       = (tid = owner)) \<and>
    (\<forall>tid Y0 i. 0 \<le> tid \<and> tid < num_threads \<and> 0 \<le> i \<and> i < num_vectors \<longrightarrow>
       fst (thread_work (row_end_offsets_of A) col_ind vals X num_vectors
              (merge_thread_coord num_threads A (row_end_offsets_of A) tid)
              (merge_thread_coord_end num_threads A (row_end_offsets_of A) tid) Y0)
         (r * num_vectors + i)
       = (if tid = owner
          then row_sum col_ind vals X num_vectors
                 (if r = coord_x (merge_thread_coord num_threads A (row_end_offsets_of A) owner)
                  then coord_y (merge_thread_coord num_threads A (row_end_offsets_of A) owner)
                  else ptr (row_offsets A) r)
                 (ptr (row_offsets A) (r + 1)) i
          else Y0 (r * num_vectors + i))) \<and>
    (\<exists>Ypar rco vco fr Y'.
       run_threads os_thread (merge_coords num_threads A (row_end_offsets_of A))
         (row_end_offsets_of A) col_ind vals X num_vectors num_threads 0 Y
         Map.empty Map.empty Map.empty = Inr (Ypar, rco, vco, fr) \<and>
       OmpMergeCsrmm os_thread num_threads A (row_end_offsets_of A) col_ind vals vector_x Y
         num_vectors X = Inr Y' \<and>
       (\<forall>i. 0 \<le> i \<and> i < num_vectors \<longrightarrow>
          Ypar (r * num_vectors + i)
            = row_sum col_ind vals X num_vectors
                (if r = coord_x (merge_thread_coord num_threads A (row_end_offsets_of A) owner)
                 then coord_y (merge_thread_coord num_threads A (row_end_offsets_of A) owner)
                 else ptr (row_offsets A) r)
                (ptr (row_offsets A) (r + 1)) i \<and>
          Y' (r * num_vectors + i)
            = Ypar (r * num_vectors + i) +
              (\<Sum>tid \<in> {tid \<in> {0..<num_threads - 1}.
                          coord_x (merge_thread_coord_end num_threads A (row_end_offsets_of A) tid)
                            = r}.
                 row_sum col_ind vals X num_vectors
                   (if coord_x (merge_thread_coord num_threads A (row_end_offsets_of A) tid) < r
                    then ptr (row_offsets A) r
                    else coord_y (merge_thread_coord num_threads A (row_end_offsets_of A) tid))
                   (coord_y (merge_thread_coord_end num_threads A (row_end_offsets_of A) tid))
                   i)))"
proof -
  let ?re = "row_end_offsets_of A"
  let ?ro = "ptr (row_offsets A)"
  let ?coords = "merge_coords num_threads A ?re"
  let ?ct = "carry_total ?re col_ind vals X num_vectors ?coords"
  define c where "c = merge_thread_coord num_threads A ?re"
  define e where "e = merge_thread_coord_end num_threads A ?re"
  have ec: "e t = c (t + 1)" for t
    unfolding e_def c_def by (rule merge_thread_coord_end_next [OF assms(1,2)])
  have co: "fst (?coords t) = c t" "snd (?coords t) = e t" for t
    unfolding c_def e_def merge_coords_def by simp_all
  from merge_row_owner_unique [OF assms(1,2), rule_format, of r] assms(5,6)
  have "\<exists>!tid. 0 \<le> tid \<and> tid < num_threads \<and> coord_x (c tid) \<le> r \<and> r < coord_x (e tid)"
    unfolding c_def e_def by simp
  then obtain owner where
    ow: "0 \<le> owner \<and> owner < num_threads \<and> coord_x (c owner) \<le> r \<and> r < coord_x (e owner)"
    and uq: "\<And>tid. 0 \<le> tid \<and> tid < num_threads \<and> coord_x (c tid) \<le> r \<and> r < coord_x (e tid)
               \<Longrightarrow> tid = owner"
    by blast
  define V where "V = (\<lambda>i. row_sum col_ind vals X num_vectors
                 (if r = coord_x (c owner) then coord_y (c owner) else ?ro r) (?ro (r + 1)) i)"
  have one: "(coord_x (c tid) \<le> r \<and> r < coord_x (e tid)) = (tid = owner)"
    if "0 \<le> tid \<and> tid < num_threads" for tid
    using that ow uq [of tid] by blast
  have two: "fst (thread_work ?re col_ind vals X num_vectors (c tid) (e tid) Y0) (r * num_vectors + i)
      = (if tid = owner then V i else Y0 (r * num_vectors + i))"
    if h: "0 \<le> tid \<and> tid < num_threads \<and> 0 \<le> i \<and> i < num_vectors" for tid Y0 i
  proof (cases "tid = owner")
    case True
    have t0: "0 \<le> owner" and nv: "0 \<le> num_vectors" using ow h by simp_all
    have "coord_x (c owner) \<le> r \<and> r < coord_x (c (owner + 1)) \<and> 0 \<le> i \<and> i < num_vectors"
      using ow h unfolding ec by simp
    with merge_thread_content(1) [OF assms(1,2) t0 nv, of col_ind vals X Y0, folded c_def]
    have "fst (thread_work ?re col_ind vals X num_vectors (c owner) (c (owner + 1)) Y0)
            (r * num_vectors + i) = V i"
      unfolding V_def by blast
    then show ?thesis using True unfolding ec by simp
  next
    case False
    have nv: "0 \<le> num_vectors" using h by simp
    have no: "\<not> (coord_x (c tid) \<le> r \<and> r < coord_x (e tid))" using one [of tid] h False by simp
    have out: "\<not> (coord_x (c tid) * num_vectors \<le> r * num_vectors + i \<and>
                  r * num_vectors + i < coord_x (e tid) * num_vectors)"
    proof (cases "r < coord_x (c tid)")
      case True
      then have "(r + 1) * num_vectors \<le> coord_x (c tid) * num_vectors"
        using nv by (intro mult_right_mono) simp_all
      then show ?thesis using h by (simp add: algebra_simps)
    next
      case False
      then have "coord_x (e tid) \<le> r" using no by simp
      then have "coord_x (e tid) * num_vectors \<le> r * num_vectors"
        using nv by (intro mult_right_mono) simp_all
      moreover have "0 \<le> i" using h by simp
      ultimately have "\<not> r * num_vectors + i < coord_x (e tid) * num_vectors" by linarith
      then show ?thesis by blast
    qed
    have "fst (thread_work ?re col_ind vals X num_vectors (c tid) (e tid) Y0) (r * num_vectors + i)
        = Y0 (r * num_vectors + i)"
      using thread_work_writes [OF nv, of ?re col_ind vals X "c tid" "e tid" Y0 "r * num_vectors + i"]
      unfolding if_not_P [OF out] .
    then show ?thesis using False by simp
  qed
  define Inv where "Inv = (\<lambda>t Y0. owner < t \<longrightarrow>
                     (\<forall>i. 0 \<le> i \<and> i < num_vectors \<longrightarrow> Y0 (r * num_vectors + i) = V i))"
  have step: "Inv (t + 1) (fst (thread_work ?re col_ind vals X num_vectors
                                   (fst (?coords t)) (snd (?coords t)) Y0))"
    if t: "0 \<le> t" "t < num_threads" and inv: "Inv t Y0" for t Y0
    unfolding co Inv_def
  proof (intro impI allI)
    fix i assume o: "owner < t + 1" and i: "0 \<le> i \<and> i < num_vectors"
    have h: "0 \<le> t \<and> t < num_threads \<and> 0 \<le> i \<and> i < num_vectors" using t i by simp
    show "fst (thread_work ?re col_ind vals X num_vectors (c t) (e t) Y0) (r * num_vectors + i) = V i"
    proof (cases "t = owner")
      case True
      then show ?thesis using two [OF h, of Y0] by simp
    next
      case False
      then have "owner < t" using o by simp
      then have "Y0 (r * num_vectors + i) = V i" using inv i unfolding Inv_def by blast
      then show ?thesis using two [OF h, of Y0] False by simp
    qed
  qed
  have inv0: "Inv 0 Y" unfolding Inv_def using ow by simp
  have z: "(0::int) \<le> 0" and nt0: "(0::int) \<le> num_threads" using assms(2) by simp_all
  from run_threads_invariant [of num_threads Inv ?re col_ind vals X num_vectors ?coords 0 Y
      os_thread Map.empty Map.empty Map.empty, OF step z nt0 assms(3) inv0]
  obtain Ypar rco vco fr where
    run: "run_threads os_thread ?coords ?re col_ind vals X num_vectors num_threads 0 Y
            Map.empty Map.empty Map.empty = Inr (Ypar, rco, vco, fr)"
    and inv: "Inv num_threads Ypar"
    by blast
  have par: "Ypar (r * num_vectors + i) = V i" if "0 \<le> i \<and> i < num_vectors" for i
    using inv ow that unfolding Inv_def by blast
  from load_balanced_csrmm_closed [OF assms(3,4), of ?coords ?re col_ind vals X num_vectors Y
      "num_rows A"]
  obtain Ypar' rco' vco' fr' where
    run': "run_threads os_thread ?coords ?re col_ind vals X num_vectors num_threads 0 Y
            Map.empty Map.empty Map.empty = Inr (Ypar', rco', vco', fr')"
    and k: "load_balanced_csrmm os_thread ?coords num_threads (num_rows A) ?re col_ind vals Y
              num_vectors X
            = Inr (\<lambda>j. Ypar' j + carried_into num_threads (num_rows A) num_vectors
                                  (\<lambda>tid. coord_x (snd (?coords tid))) ?ct j)"
    by blast
  have same: "Ypar' = Ypar" using run run' by simp
  define Y' where "Y' = (\<lambda>j. Ypar j + carried_into num_threads (num_rows A) num_vectors
                                  (\<lambda>tid. coord_x (e tid)) ?ct j)"
  have kern: "OmpMergeCsrmm os_thread num_threads A ?re col_ind vals vector_x Y num_vectors X
                = Inr Y'"
    using k unfolding same co Y'_def by (simp add: OmpMergeCsrmm_def)
  have added: "Y' (r * num_vectors + i) = Ypar (r * num_vectors + i) +
      (\<Sum>tid \<in> {tid \<in> {0..<num_threads - 1}. coord_x (e tid) = r}.
         row_sum col_ind vals X num_vectors
           (if coord_x (c tid) < r then ?ro r else coord_y (c tid)) (coord_y (e tid)) i)"
    if i: "0 \<le> i \<and> i < num_vectors" for i
  proof -
    let ?j = "r * num_vectors + i"
    have i0: "0 \<le> i" and i1: "i < num_vectors" and nv: "0 \<le> num_vectors" using i by simp_all
    have S: "{tid \<in> {0..<num_threads - 1}. coord_x (e tid) < num_rows A \<and>
                coord_x (e tid) * num_vectors \<le> ?j \<and> ?j < coord_x (e tid) * num_vectors + num_vectors}
           = {tid \<in> {0..<num_threads - 1}. coord_x (e tid) = r}"
      using cell_in_row [OF i0 i1, of _ r] assms(6) by auto
    have T: "?ct tid ! nat (?j - coord_x (e tid) * num_vectors)
        = row_sum col_ind vals X num_vectors
           (if coord_x (c tid) < r then ?ro r else coord_y (c tid)) (coord_y (e tid)) i"
      if m: "tid \<in> {tid \<in> {0..<num_threads - 1}. coord_x (e tid) = r}" for tid
    proof -
      have t0: "0 \<le> tid" and er: "coord_x (e tid) = r" using m by simp_all
      have "?j - coord_x (e tid) * num_vectors = i" using er by simp
      moreover have "?ct tid ! nat i
          = row_sum col_ind vals X num_vectors
              (if coord_x (c tid) < coord_x (c (tid + 1)) then ?ro (coord_x (c (tid + 1)))
               else coord_y (c tid))
              (coord_y (c (tid + 1))) i"
        using merge_carry_total [OF assms(1,2) t0 nv i0 i1, of col_ind vals X, folded c_def] .
      ultimately show ?thesis using er unfolding ec by simp
    qed
    have "carried_into num_threads (num_rows A) num_vectors (\<lambda>tid. coord_x (e tid)) ?ct ?j
        = (\<Sum>tid \<in> {tid \<in> {0..<num_threads - 1}. coord_x (e tid) = r}.
             ?ct tid ! nat (?j - coord_x (e tid) * num_vectors))"
      unfolding carried_into_def S ..
    also have "\<dots> = (\<Sum>tid \<in> {tid \<in> {0..<num_threads - 1}. coord_x (e tid) = r}.
         row_sum col_ind vals X num_vectors
           (if coord_x (c tid) < r then ?ro r else coord_y (c tid)) (coord_y (e tid)) i)"
      by (rule sum.cong [OF refl T])
    finally show ?thesis unfolding Y'_def by simp
  qed
  have three: "\<exists>Ypar rco vco fr Y'.
       run_threads os_thread ?coords ?re col_ind vals X num_vectors num_threads 0 Y
         Map.empty Map.empty Map.empty = Inr (Ypar, rco, vco, fr) \<and>
       OmpMergeCsrmm os_thread num_threads A ?re col_ind vals vector_x Y num_vectors X = Inr Y' \<and>
       (\<forall>i. 0 \<le> i \<and> i < num_vectors \<longrightarrow>
          Ypar (r * num_vectors + i) = V i \<and>
          Y' (r * num_vectors + i)
            = Ypar (r * num_vectors + i) +
              (\<Sum>tid \<in> {tid \<in> {0..<num_threads - 1}. coord_x (e tid) = r}.
                 row_sum col_ind vals X num_vectors
                   (if coord_x (c tid) < r then ?ro r else coord_y (c tid)) (coord_y (e tid)) i))"
    using run kern par added by blast
  have first: "\<forall>tid. 0 \<le> tid \<and> tid < num_threads \<longrightarrow>
       (coord_x (c tid) \<le> r \<and> r < coord_x (e tid)) = (tid = owner)"
    using one by blast
  have second: "\<forall>tid Y0 i. 0 \<le> tid \<and> tid < num_threads \<and> 0 \<le> i \<and> i < num_vectors \<longrightarrow>
       fst (thread_work ?re col_ind vals X num_vectors (c tid) (e tid) Y0) (r * num_vectors + i)
       = (if tid = owner then V i else Y0 (r * num_vectors + i))"
    using two by blast
  have o0: "0 \<le> owner" and o1: "owner < num_threads" using ow by simp_all
  note all = conjI [OF o0 conjI [OF o1 conjI [OF first conjI [OF second three]]]]
  show ?thesis
    by (rule exI [of _ owner]) (rule all [unfolded V_def c_def e_def])
qed

theorem merge_rows_have_one_owner_witness:
  "\<exists>owner. 0 \<le> owner \<and> owner < 3 \<and>
    (\<forall>tid. 0 \<le> tid \<and> tid < 3 \<longrightarrow>
       (coord_x (merge_thread_coord 3 csr_1x4 (row_end_offsets_of csr_1x4) tid) \<le> 0 \<and>
        0 < coord_x (merge_thread_coord_end 3 csr_1x4 (row_end_offsets_of csr_1x4) tid))
       = (tid = owner)) \<and>
    (\<forall>tid Y0 i. 0 \<le> tid \<and> tid < 3 \<and> 0 \<le> i \<and> i < 1 \<longrightarrow>
       fst (thread_work (row_end_offsets_of csr_1x4) (ptr (column_indices csr_1x4))
              (ptr (values' csr_1x4)) (filled 1) 1
              (merge_thread_coord 3 csr_1x4 (row_end_offsets_of csr_1x4) tid)
              (merge_thread_coord_end 3 csr_1x4 (row_end_offsets_of csr_1x4) tid) Y0)
         (0 * 1 + i)
       = (if tid = owner
          then row_sum (ptr (column_indices csr_1x4)) (ptr (values' csr_1x4)) (filled 1) 1
                 (if 0 = coord_x (merge_thread_coord 3 csr_1x4 (row_end_offsets_of csr_1x4) owner)
                  then coord_y (merge_thread_coord 3 csr_1x4 (row_end_offsets_of csr_1x4) owner)
                  else ptr (row_offsets csr_1x4) 0)
                 (ptr (row_offsets csr_1x4) (0 + 1)) i
          else Y0 (0 * 1 + i))) \<and>
    (\<exists>Ypar rco vco fr Y'.
       run_threads one_thread_each (merge_coords 3 csr_1x4 (row_end_offsets_of csr_1x4))
         (row_end_offsets_of csr_1x4) (ptr (column_indices csr_1x4)) (ptr (values' csr_1x4))
         (filled 1) 1 3 0 (filled 5) Map.empty Map.empty Map.empty = Inr (Ypar, rco, vco, fr) \<and>
       OmpMergeCsrmm one_thread_each 3 csr_1x4 (row_end_offsets_of csr_1x4)
         (ptr (column_indices csr_1x4)) (ptr (values' csr_1x4)) (filled 1) (filled 5) 1 (filled 1)
         = Inr Y' \<and>
       (\<forall>i. 0 \<le> i \<and> i < 1 \<longrightarrow>
          Ypar (0 * 1 + i)
            = row_sum (ptr (column_indices csr_1x4)) (ptr (values' csr_1x4)) (filled 1) 1
                (if 0 = coord_x (merge_thread_coord 3 csr_1x4 (row_end_offsets_of csr_1x4) owner)
                 then coord_y (merge_thread_coord 3 csr_1x4 (row_end_offsets_of csr_1x4) owner)
                 else ptr (row_offsets csr_1x4) 0)
                (ptr (row_offsets csr_1x4) (0 + 1)) i \<and>
          Y' (0 * 1 + i)
            = Ypar (0 * 1 + i) +
              (\<Sum>tid \<in> {tid \<in> {0..<3 - 1}.
                          coord_x (merge_thread_coord_end 3 csr_1x4 (row_end_offsets_of csr_1x4) tid)
                            = 0}.
                 row_sum (ptr (column_indices csr_1x4)) (ptr (values' csr_1x4)) (filled 1) 1
                   (if coord_x (merge_thread_coord 3 csr_1x4 (row_end_offsets_of csr_1x4) tid) < 0
                    then ptr (row_offsets csr_1x4) 0
                    else coord_y (merge_thread_coord 3 csr_1x4 (row_end_offsets_of csr_1x4) tid))
                   (coord_y (merge_thread_coord_end 3 csr_1x4 (row_end_offsets_of csr_1x4) tid))
                   i)))"
proof -
  have t: "(1::int) \<le> 3" "(3::int) \<le> 256" by simp_all
  have i: "inj_on one_thread_each {0..<3}" by (simp add: inj_on_def one_thread_each_def)
  have r: "(0::int) \<le> 0" "0 < num_rows csr_1x4" by (simp_all add: csr_1x4_def)
  from merge_rows_have_one_owner [OF csr_invariants_csr_1x4 t i r,
      where col_ind = "ptr (column_indices csr_1x4)" and vals = "ptr (values' csr_1x4)"
        and X = "filled 1" and num_vectors = 1 and Y = "filled 5" and vector_x = "filled 1"]
  show ?thesis .
qed

text \<open>
  The claim as stated allows at most one thread besides the owner to add a
  carry-out to a row. With one row of four nonzeros and three threads, each on an
  OS thread of its own, threads 0 and 1 both end inside row 0 and record it with
  the totals 3 and 7; thread 2 starts at \<open>(0, 4)\<close>, ends at \<open>(1, 4)\<close> and overwrites
  row 0 with the empty sum; the fix-up adds both carry-outs, and the result is 10.
\<close>

theorem two_threads_carry_into_one_row_counterexample:
  "csr_invariants csr_1x4 \<and> num_rows csr_1x4 = 1 \<and>
   merge_thread_coord_end 3 csr_1x4 (row_end_offsets_of csr_1x4) 0 = Int2 0 2 \<and>
   merge_thread_coord_end 3 csr_1x4 (row_end_offsets_of csr_1x4) 1 = Int2 0 4 \<and>
   merge_thread_coord 3 csr_1x4 (row_end_offsets_of csr_1x4) 2 = Int2 0 4 \<and>
   merge_thread_coord_end 3 csr_1x4 (row_end_offsets_of csr_1x4) 2 = Int2 1 4 \<and>
   carry_total (row_end_offsets_of csr_1x4) (ptr (column_indices csr_1x4)) (ptr (values' csr_1x4))
     (filled 1) 1 (merge_coords 3 csr_1x4 (row_end_offsets_of csr_1x4)) 0 = [3] \<and>
   carry_total (row_end_offsets_of csr_1x4) (ptr (column_indices csr_1x4)) (ptr (values' csr_1x4))
     (filled 1) 1 (merge_coords 3 csr_1x4 (row_end_offsets_of csr_1x4)) 1 = [7] \<and>
   OmpMergeCsrmm one_thread_each 3 csr_1x4 (row_end_offsets_of csr_1x4)
     (ptr (column_indices csr_1x4)) (ptr (values' csr_1x4)) (filled 1) (filled 5) 1 (filled 1)
     = Inr ((filled 5)(0 := 10))"
  by (simp add: eval_simps csr_1x4_def csr_invariants_def filled_def carry_total_def)

end
